theory Spec2Isabelle
  imports Main "HOL-Library.Word"
begin

unbundle bit_operations_syntax

section \<open>Data model\<close>

text \<open>
  The library (\<^verbatim>\<open>src/zz.h\<close>, \<^verbatim>\<open>src/zz.c\<close>) stores an integer in sign-magnitude form:
  \<^verbatim>\<open>typedef struct { bool negative; zz_size_t alloc; zz_size_t size; zz_digit_t *digits; } zz_t;\<close>
  with 64-bit digits, least significant first.  The field \<open>digits\<close> of the model is the whole
  buffer the pointer addresses (\<open>alloc\<close> words); the logical digits are its first \<open>size\<close>
  words.  \<^verbatim>\<open>zz_size_t\<close> is a signed 64-bit type whose values are never negative in the code;
  it is modelled by \<open>nat\<close>, and every subtraction the code does on sizes is guarded as in the
  source.

  Every function of the library works through pointers to \<^verbatim>\<open>zz_t\<close> and several of them test
  pointers for equality to detect aliasing.  The model therefore passes an explicit store:
  a list of objects, a pointer being an index into it.  A local \<^verbatim>\<open>zz_t tmp\<close> is a fresh cell
  pushed at the end of the store and popped when the function returns.  A pointer that may be
  \<^verbatim>\<open>NULL\<close> is an \<open>option\<close>.

  Memory allocation is assumed to succeed: \<^verbatim>\<open>malloc\<close> and \<^verbatim>\<open>realloc\<close> return a buffer, and the
  GMP kernel never triggers the \<^verbatim>\<open>TMP_OVERFLOW\<close> escape.  Under this assumption
  \<^verbatim>\<open>zz_resize\<close> returns \<^verbatim>\<open>ZZ_OK\<close> on every path, so the \<^verbatim>\<open>ZZ_MEM\<close> exits of its callers (all
  marked \<^verbatim>\<open>LCOV_EXCL\<close> in the source) are unreachable and are left out of the model.  Words
  that \<^verbatim>\<open>realloc\<close> newly exposes are unspecified in C; the model fills them with 0.
\<close>

type_synonym zz_digit_t = "64 word"
type_synonym int64_t = "64 word"
type_synonym uint64_t = "64 word"

datatype zz_err = ZZ_OK | ZZ_MEM | ZZ_VAL | ZZ_BUF

datatype zz_ord = ZZ_GT | ZZ_EQ | ZZ_LT

record zz_t =
  negative :: bool
  alloc :: nat
  size_zz :: nat
  digits :: "zz_digit_t list"

type_synonym store = "zz_t list"

text \<open>\<^verbatim>\<open>ZZ_DIGITS_MAX\<close> is \<^verbatim>\<open>(zz_size_t)(UINT64_MAX/64)\<close> (\<^verbatim>\<open>src/zz-impl.h\<close>, the non-Windows branch).\<close>

definition ZZ_DIGITS_MAX :: nat where
  "ZZ_DIGITS_MAX = (2 ^ 64 - 1) div 64"

text \<open>
  The macro \<^verbatim>\<open>ABS_CAST(T, v)\<close> is not in the source files at hand.
  Modelled from the spec: "handle the minimum signed value via unsigned-cast-before-negate",
  that is, the magnitude of \<open>v\<close> computed in the unsigned type.
\<close>

definition ABS_CAST :: "int64_t \<Rightarrow> zz_digit_t" where
  "ABS_CAST v = (if sint v < 0 then - ucast v else ucast v)"

text \<open>The negation \<^verbatim>\<open>-r\<close> of a comparison result (\<^verbatim>\<open>ZZ_GT = 1\<close>, \<^verbatim>\<open>ZZ_EQ = 0\<close>, \<^verbatim>\<open>ZZ_LT = -1\<close>).\<close>

fun neg_ord :: "zz_ord \<Rightarrow> zz_ord" where
  "neg_ord ZZ_GT = ZZ_LT"
| "neg_ord ZZ_EQ = ZZ_EQ"
| "neg_ord ZZ_LT = ZZ_GT"

subsection \<open>The value of a digit array\<close>

fun limbs_val :: "zz_digit_t list \<Rightarrow> nat" where
  "limbs_val [] = 0"
| "limbs_val (d # ds) = unat d + 2 ^ 64 * limbs_val ds"

text \<open>The \<open>n\<close> low digits of a natural number.\<close>

fun to_limbs :: "nat \<Rightarrow> nat \<Rightarrow> zz_digit_t list" where
  "to_limbs 0 x = []"
| "to_limbs (Suc n) x = word_of_nat x # to_limbs n (x div 2 ^ 64)"

text \<open>The number of digits of a natural number (0 for 0): the size GMP calls normalised.\<close>

fun limbs_size :: "nat \<Rightarrow> nat" where
  "limbs_size x = (if x = 0 then 0 else Suc (limbs_size (x div 2 ^ 64)))"

declare limbs_size.simps [simp del]

text \<open>The integer an object denotes, and the canonical form of the spec's data model.\<close>

definition zz_mag :: "zz_t \<Rightarrow> nat" where
  "zz_mag u = limbs_val (take (size_zz u) (digits u))"

definition zz_val :: "zz_t \<Rightarrow> int" where
  "zz_val u = (if negative u then - int (zz_mag u) else int (zz_mag u))"

definition canonical :: "zz_t \<Rightarrow> bool" where
  "canonical u \<longleftrightarrow>
     alloc u = length (digits u) \<and> size_zz u \<le> alloc u \<and>
     ((size_zz u = 0 \<and> \<not> negative u) \<or> (0 < size_zz u \<and> digits u ! (size_zz u - 1) \<noteq> 0))"

section \<open>Digit store\<close>

text \<open>\<^verbatim>\<open>realloc(p, n)\<close>: the old contents up to the smaller of the two lengths, then new words.\<close>

definition realloc :: "zz_digit_t list \<Rightarrow> nat \<Rightarrow> zz_digit_t list" where
  "realloc buf n = take n buf @ replicate (n - length buf) 0"

text \<open>Writing the words \<open>ws\<close> at the start of a buffer.\<close>

definition write_limbs :: "zz_digit_t list \<Rightarrow> zz_digit_t list \<Rightarrow> zz_digit_t list" where
  "write_limbs ws buf = ws @ drop (length ws) buf"

definition zz_init :: zz_t where
  "zz_init = \<lparr>negative = False, alloc = 0, size_zz = 0, digits = []\<rparr>"

definition zz_resize :: "nat \<Rightarrow> zz_t \<Rightarrow> zz_t" where
  "zz_resize sz u =
     (if sz \<le> alloc u then
        (let u1 = u\<lparr>size_zz := sz\<rparr>
         in if size_zz u1 = 0 then u1\<lparr>negative := False\<rparr> else u1)
      else u\<lparr>digits := realloc (digits u) sz, alloc := sz, size_zz := sz\<rparr>)"

definition zz_clear :: "zz_t \<Rightarrow> zz_t" where
  "zz_clear u = \<lparr>negative = False, alloc = 0, size_zz = 0, digits = []\<rparr>"

text \<open>The loop of \<^verbatim>\<open>zz_normalize\<close>: \<^verbatim>\<open>while (u->size && u->digits[u->size - 1] == 0) u->size--;\<close>\<close>

fun zz_normalize_loop :: "zz_digit_t list \<Rightarrow> nat \<Rightarrow> nat" where
  "zz_normalize_loop ds 0 = 0"
| "zz_normalize_loop ds (Suc n) = (if ds ! n = 0 then zz_normalize_loop ds n else Suc n)"

definition zz_normalize :: "zz_t \<Rightarrow> zz_t" where
  "zz_normalize u =
     (let u1 = u\<lparr>size_zz := zz_normalize_loop (digits u) (size_zz u)\<rparr>
      in if size_zz u1 = 0 then u1\<lparr>negative := False\<rparr> else u1)"

definition zz_cmp_i64 :: "zz_t \<Rightarrow> int64_t \<Rightarrow> zz_ord" where
  "zz_cmp_i64 u v =
     (let u_negative = negative u;
          sign = (if u_negative then ZZ_LT else ZZ_GT);
          v_negative = (sint v < 0)
      in if u_negative \<noteq> v_negative then sign
         else if size_zz u \<noteq> 1 then
           (if size_zz u \<noteq> 0 then sign else if v \<noteq> 0 then neg_ord sign else ZZ_EQ)
         else
           (let digit = ABS_CAST v;
                r = (if digits u ! 0 < digit then ZZ_LT
                     else if digits u ! 0 > digit then ZZ_GT
                     else ZZ_EQ)
            in if u_negative then neg_ord r else r))"

definition zz_set_i64 :: "int64_t \<Rightarrow> zz_t \<Rightarrow> zz_t" where
  "zz_set_i64 u v =
     (if u = 0 then v\<lparr>size_zz := 0, negative := False\<rparr>
      else
        (let v1 = zz_resize 1 v;
             v2 = v1\<lparr>negative := (sint u < 0)\<rparr>
         in v2\<lparr>digits := (digits v2)[0 := ABS_CAST u]\<rparr>))"

text \<open>\<^verbatim>\<open>mpn_copyi(rp, up, n)\<close> of GMP: copy \<open>n\<close> words from \<open>up\<close> to \<open>rp\<close>.\<close>

definition mpn_copyi :: "zz_digit_t list \<Rightarrow> zz_digit_t list \<Rightarrow> nat \<Rightarrow> zz_digit_t list" where
  "mpn_copyi rp up n = write_limbs (take n up) rp"

definition zz_pos :: "store \<Rightarrow> nat \<Rightarrow> nat \<Rightarrow> zz_err \<times> store" where
  "zz_pos s u v =
     (if u \<noteq> v then
        (if size_zz (s ! u) = 0 then (ZZ_OK, s[v := zz_set_i64 0 (s ! v)])
         else
           (let s1 = s[v := zz_resize (size_zz (s ! u)) (s ! v)];
                s2 = s1[v := (s1 ! v)\<lparr>negative := negative (s1 ! u)\<rparr>];
                s3 = s2[v := (s2 ! v)\<lparr>digits :=
                        mpn_copyi (digits (s2 ! v)) (digits (s2 ! u)) (size_zz (s2 ! u))\<rparr>]
            in (ZZ_OK, s3)))
      else (ZZ_OK, s))"

definition zz_abs :: "store \<Rightarrow> nat \<Rightarrow> nat \<Rightarrow> zz_err \<times> store" where
  "zz_abs s u v =
     (let s1 = (if u \<noteq> v then snd (zz_pos s u v) else s)
      in (ZZ_OK, s1[v := (s1 ! v)\<lparr>negative := False\<rparr>]))"

definition zz_neg :: "store \<Rightarrow> nat \<Rightarrow> nat \<Rightarrow> zz_err \<times> store" where
  "zz_neg s u v =
     (let s1 = (if u \<noteq> v then snd (zz_pos s u v) else s)
      in if size_zz (s1 ! v) \<noteq> 0
         then (ZZ_OK, s1[v := (s1 ! v)\<lparr>negative := \<not> negative (s1 ! u)\<rparr>])
         else (ZZ_OK, s1))"

lemma length_zz_pos [simp]: "length (snd (zz_pos s u v)) = length s"
  by (simp add: zz_pos_def Let_def)

lemma fst_zz_pos [simp]: "fst (zz_pos s u v) = ZZ_OK"
  by (simp add: zz_pos_def Let_def)

section \<open>Power\<close>

text \<open>
  \<^verbatim>\<open>mpn_pow_1(rp, bp, bn, exp, tp)\<close> of GMP: the power \<open>{bp,bn}^exp\<close>, written to \<open>rp\<close>; the
  return value is its size.  For the exponent zero the kernel writes the single word \<open>1\<close>, for
  the exponent one it copies the \<open>bn\<close> words of the base.  Otherwise it builds the power by
  squarings and multiplications by the base, each of which writes its whole product, a zero
  top word included, and returns the normalised size.  So the words written to \<open>rp\<close> are those
  of the last step: twice the size of the square root of the result for an even exponent (a
  squaring), and the size of the previous power plus \<open>bn\<close> for an odd one (a multiplication by
  the base).  The model returns the size and the words written.
\<close>

definition mpn_pow_1 :: "zz_digit_t list \<Rightarrow> uint64_t \<Rightarrow> nat \<times> zz_digit_t list" where
  "mpn_pow_1 bp e =
     (if e = 0 then (1, [1])
      else if e = 1 then (length bp, bp)
      else
        (let b = limbs_val bp;
             r = b ^ unat e;
             written =
               (if e mod 2 = 0 then 2 * limbs_size (b ^ (unat e div 2))
                else limbs_size (b ^ (unat e - 1)) + length bp)
         in (limbs_size r, to_limbs written r)))"

function zz_pow :: "store \<Rightarrow> nat \<Rightarrow> uint64_t \<Rightarrow> nat \<Rightarrow> zz_err \<times> store" where
  "zz_pow s u v w =
     (if u = w then
        (let tmp = length s;
             s1 = s @ [zz_init];
             s2 = snd (zz_pos s1 u tmp);
             (ret, s3) = zz_pow s2 tmp v w
         in (ret, take (length s) (s3[tmp := zz_clear (s3 ! tmp)])))
      else if v = 0 then (ZZ_OK, s[w := zz_set_i64 1 (s ! w)])
      else if size_zz (s ! u) = 0 then (ZZ_OK, s[w := zz_set_i64 0 (s ! w)])
      else if zz_cmp_i64 (s ! u) 1 = ZZ_EQ then (ZZ_OK, s[w := zz_set_i64 1 (s ! w)])
      else if ZZ_DIGITS_MAX div size_zz (s ! u) < unat v then (ZZ_BUF, s)
      else
        (let w_size = unat v * size_zz (s ! u);
             s1 = s[w := zz_resize w_size (s ! w)];
             s2 = s1[w := (s1 ! w)\<lparr>negative := (negative (s1 ! u) \<and> v mod 2 \<noteq> 0)\<rparr>];
             (rn, rp) = mpn_pow_1 (take (size_zz (s2 ! u)) (digits (s2 ! u))) v;
             s3 = s2[w := (s2 ! w)\<lparr>digits := write_limbs rp (digits (s2 ! w)), size_zz := rn\<rparr>];
             s4 = s3[w := zz_resize (size_zz (s3 ! w)) (s3 ! w)]
         in (ZZ_OK, s4)))"
  by pat_completeness auto
termination
  by (relation "measure (\<lambda>(s, u, v, w). if u = w then (if length s \<le> w then 2 else 1) else 0)")
     auto

section \<open>The digit-level kernel\<close>

text \<open>
  The \<^verbatim>\<open>mpn_*\<close> routines belong to GMP, which the library links against; they are not part
  of the repository.  Each is modelled by the result its documentation specifies, computed on
  the value of the operands: an operand \<open>{p, n}\<close> is passed as the list of its \<open>n\<close> words, and
  the words written to a destination are returned together with the function's return value.
\<close>

text \<open>\<^verbatim>\<open>mpn_cmp(s1p, s2p, n)\<close>: a negative, zero or positive value.\<close>

definition mpn_cmp :: "zz_digit_t list \<Rightarrow> zz_digit_t list \<Rightarrow> int" where
  "mpn_cmp up vp =
     (if limbs_val up < limbs_val vp then - 1 else if limbs_val vp < limbs_val up then 1 else 0)"

text \<open>\<^verbatim>\<open>mpn_add(rp, s1p, s1n, s2p, s2n)\<close>, \<open>s1n \<ge> s2n\<close>: the \<open>s1n\<close> low words of the sum, and the carry.\<close>

definition mpn_add :: "zz_digit_t list \<Rightarrow> zz_digit_t list \<Rightarrow> zz_digit_t \<times> zz_digit_t list" where
  "mpn_add up vp =
     (let r = limbs_val up + limbs_val vp
      in (word_of_nat (r div 2 ^ (64 * length up)), to_limbs (length up) r))"

text \<open>\<^verbatim>\<open>mpn_add_1(rp, s1p, n, s2limb)\<close>: the \<open>n\<close> low words of the sum, and the carry.\<close>

definition mpn_add_1 :: "zz_digit_t list \<Rightarrow> zz_digit_t \<Rightarrow> zz_digit_t \<times> zz_digit_t list" where
  "mpn_add_1 up v =
     (let r = limbs_val up + unat v
      in (word_of_nat (r div 2 ^ (64 * length up)), to_limbs (length up) r))"

text \<open>
  \<^verbatim>\<open>mpn_sub(rp, s1p, s1n, s2p, s2n)\<close>, \<^verbatim>\<open>mpn_sub_n\<close> and \<^verbatim>\<open>mpn_sub_1\<close>: the \<open>s1n\<close> low words of
  the difference (modulo \<open>2^(64 s1n)\<close>), and the borrow.
\<close>

definition mpn_sub :: "zz_digit_t list \<Rightarrow> zz_digit_t list \<Rightarrow> zz_digit_t \<times> zz_digit_t list" where
  "mpn_sub up vp =
     (let r = nat ((int (limbs_val up) - int (limbs_val vp)) mod 2 ^ (64 * length up))
      in (if limbs_val up < limbs_val vp then 1 else 0, to_limbs (length up) r))"

definition mpn_sub_n :: "zz_digit_t list \<Rightarrow> zz_digit_t list \<Rightarrow> zz_digit_t \<times> zz_digit_t list" where
  "mpn_sub_n up vp = mpn_sub up vp"

definition mpn_sub_1 :: "zz_digit_t list \<Rightarrow> zz_digit_t \<Rightarrow> zz_digit_t \<times> zz_digit_t list" where
  "mpn_sub_1 up v =
     (let r = nat ((int (limbs_val up) - int (unat v)) mod 2 ^ (64 * length up))
      in (if limbs_val up < unat v then 1 else 0, to_limbs (length up) r))"

text \<open>\<^verbatim>\<open>mpn_mul_1(rp, s1p, n, s2limb)\<close>: the \<open>n\<close> low words of the product, and the high word.\<close>

definition mpn_mul_1 :: "zz_digit_t list \<Rightarrow> zz_digit_t \<Rightarrow> zz_digit_t \<times> zz_digit_t list" where
  "mpn_mul_1 up v =
     (let r = limbs_val up * unat v
      in (word_of_nat (r div 2 ^ (64 * length up)), to_limbs (length up) r))"

text \<open>
  \<^verbatim>\<open>mpn_mul(rp, s1p, s1n, s2p, s2n)\<close>, \<^verbatim>\<open>mpn_mul_n\<close> and \<^verbatim>\<open>mpn_sqr\<close>: the product, in
  \<open>s1n + s2n\<close> words.
\<close>

definition mpn_mul :: "zz_digit_t list \<Rightarrow> zz_digit_t list \<Rightarrow> zz_digit_t list" where
  "mpn_mul up vp = to_limbs (length up + length vp) (limbs_val up * limbs_val vp)"

definition mpn_mul_n :: "zz_digit_t list \<Rightarrow> zz_digit_t list \<Rightarrow> zz_digit_t list" where
  "mpn_mul_n up vp = mpn_mul up vp"

definition mpn_sqr :: "zz_digit_t list \<Rightarrow> zz_digit_t list" where
  "mpn_sqr up = mpn_mul up up"

text \<open>
  \<^verbatim>\<open>mpn_tdiv_qr(qp, rp, 0, np, nn, dp, dn)\<close>, \<open>nn \<ge> dn\<close> and the top word of the divisor not
  zero: the quotient in \<open>nn - dn + 1\<close> words and the remainder in \<open>dn\<close> words.
\<close>

definition mpn_tdiv_qr ::
  "zz_digit_t list \<Rightarrow> zz_digit_t list \<Rightarrow> zz_digit_t list \<times> zz_digit_t list" where
  "mpn_tdiv_qr np dp =
     (to_limbs (length np - length dp + 1) (limbs_val np div limbs_val dp),
      to_limbs (length dp) (limbs_val np mod limbs_val dp))"

text \<open>
  \<^verbatim>\<open>mpn_rshift(rp, sp, n, count)\<close>, \<open>1 \<le> count \<le> 63\<close>: the operand shifted right, in \<open>n\<close>
  words; the bits shifted out are returned in the most significant bits of the return value.
\<close>

definition mpn_rshift :: "zz_digit_t list \<Rightarrow> nat \<Rightarrow> zz_digit_t \<times> zz_digit_t list" where
  "mpn_rshift sp cnt =
     (word_of_nat ((limbs_val sp mod 2 ^ cnt) * 2 ^ (64 - cnt)),
      to_limbs (length sp) (limbs_val sp div 2 ^ cnt))"

section \<open>Addition and subtraction\<close>

text \<open>
  \<^verbatim>\<open>zz_addsub\<close> first fixes the effective signs and swaps the operands so that the one with
  more digits leads; \<open>zz_addsub_swapped\<close> is the rest of the function, after the \<^verbatim>\<open>SWAP\<close>s.
\<close>

definition zz_addsub_swapped ::
  "store \<Rightarrow> nat \<Rightarrow> nat \<Rightarrow> bool \<Rightarrow> bool \<Rightarrow> bool \<Rightarrow> nat \<Rightarrow> zz_err \<times> store" where
  "zz_addsub_swapped s u v negu negv same_sign w =
     (let u_size = size_zz (s ! u);
          v_size = size_zz (s ! v)
      in if same_sign \<and> u_size = ZZ_DIGITS_MAX then (ZZ_BUF, s)
         else
           (let s1 = s[w := zz_resize (u_size + (if same_sign then 1 else 0)) (s ! w)];
                s2 = s1[w := (s1 ! w)\<lparr>negative := negu\<rparr>];
                s3 =
                  (if same_sign then
                     (let (cy, rp) = mpn_add (take u_size (digits (s2 ! u)))
                                             (take v_size (digits (s2 ! v)));
                          s2a = s2[w := (s2 ! w)\<lparr>digits := write_limbs rp (digits (s2 ! w))\<rparr>]
                      in s2a[w := (s2a ! w)\<lparr>digits :=
                               (digits (s2a ! w))[size_zz (s2a ! w) - 1 := cy]\<rparr>])
                   else if u_size \<noteq> v_size then
                     (let (bw, rp) = mpn_sub (take u_size (digits (s2 ! u)))
                                             (take v_size (digits (s2 ! v)))
                      in s2[w := (s2 ! w)\<lparr>digits := write_limbs rp (digits (s2 ! w))\<rparr>])
                   else
                     (let cmp = mpn_cmp (take u_size (digits (s2 ! u)))
                                        (take u_size (digits (s2 ! v)))
                      in if cmp < 0 then
                           (let (bw, rp) = mpn_sub_n (take u_size (digits (s2 ! v)))
                                                     (take u_size (digits (s2 ! u)));
                                s2a = s2[w := (s2 ! w)\<lparr>digits := write_limbs rp (digits (s2 ! w))\<rparr>]
                            in s2a[w := (s2a ! w)\<lparr>negative := negv\<rparr>])
                         else if 0 < cmp then
                           (let (bw, rp) = mpn_sub_n (take u_size (digits (s2 ! u)))
                                                     (take u_size (digits (s2 ! v)))
                            in s2[w := (s2 ! w)\<lparr>digits := write_limbs rp (digits (s2 ! w))\<rparr>])
                         else s2[w := (s2 ! w)\<lparr>size_zz := 0\<rparr>]))
            in (ZZ_OK, s3[w := zz_normalize (s3 ! w)])))"

definition zz_addsub :: "store \<Rightarrow> nat \<Rightarrow> nat \<Rightarrow> bool \<Rightarrow> nat \<Rightarrow> zz_err \<times> store" where
  "zz_addsub s u v subtract w =
     (let negu = negative (s ! u);
          negv = (if subtract then \<not> negative (s ! v) else negative (s ! v));
          same_sign = (negu = negv)
      in if size_zz (s ! u) < size_zz (s ! v)
         then zz_addsub_swapped s v u negv negu same_sign w
         else zz_addsub_swapped s u v negu negv same_sign w)"

definition zz_addsub_u64 :: "store \<Rightarrow> nat \<Rightarrow> uint64_t \<Rightarrow> bool \<Rightarrow> nat \<Rightarrow> zz_err \<times> store" where
  "zz_addsub_u64 s u v subtract w =
     (let negu = negative (s ! u);
          negv = subtract;
          same_sign = (negu = negv);
          u_size = size_zz (s ! u);
          v_size = (if v \<noteq> 0 then 1 else 0 :: nat)
      in if u_size = 0 \<or> u_size < v_size then
           (let s1 = s[w := zz_resize v_size (s ! w)];
                s2 = (if v_size \<noteq> 0 then s1[w := (s1 ! w)\<lparr>digits := (digits (s1 ! w))[0 := v]\<rparr>]
                      else s1)
            in (ZZ_OK, s2[w := (s2 ! w)\<lparr>negative :=
                                (if size_zz (s2 ! w) \<noteq> 0 then negv else False)\<rparr>]))
         else if same_sign \<and> u_size = ZZ_DIGITS_MAX then (ZZ_BUF, s)
         else
           (let s1 = s[w := zz_resize (u_size + (if same_sign then 1 else 0)) (s ! w)];
                s2 = s1[w := (s1 ! w)\<lparr>negative := negu\<rparr>];
                s3 =
                  (if same_sign then
                     (let (cy, rp) = mpn_add_1 (take u_size (digits (s2 ! u))) v;
                          s2a = s2[w := (s2 ! w)\<lparr>digits := write_limbs rp (digits (s2 ! w))\<rparr>]
                      in s2a[w := (s2a ! w)\<lparr>digits :=
                               (digits (s2a ! w))[size_zz (s2a ! w) - 1 := cy]\<rparr>])
                   else if u_size \<noteq> 1 then
                     (let (bw, rp) = mpn_sub_1 (take u_size (digits (s2 ! u))) v
                      in s2[w := (s2 ! w)\<lparr>digits := write_limbs rp (digits (s2 ! w))\<rparr>])
                   else if digits (s2 ! u) ! 0 < v then
                     (let s2a = s2[w := (s2 ! w)\<lparr>digits :=
                                    (digits (s2 ! w))[0 := v - digits (s2 ! u) ! 0]\<rparr>]
                      in s2a[w := (s2a ! w)\<lparr>negative := negv\<rparr>])
                   else s2[w := (s2 ! w)\<lparr>digits :=
                              (digits (s2 ! w))[0 := digits (s2 ! u) ! 0 - v]\<rparr>])
            in (ZZ_OK, s3[w := zz_normalize (s3 ! w)])))"

definition zz_addsub_i64 :: "store \<Rightarrow> nat \<Rightarrow> int64_t \<Rightarrow> bool \<Rightarrow> nat \<Rightarrow> zz_err \<times> store" where
  "zz_addsub_i64 s u v subtract w =
     (let uv = ABS_CAST v
      in zz_addsub_u64 s u uv (if subtract then 0 \<le> sint v else sint v < 0) w)"

definition zz_add :: "store \<Rightarrow> nat \<Rightarrow> nat \<Rightarrow> nat \<Rightarrow> zz_err \<times> store" where
  "zz_add s u v w = zz_addsub s u v False w"

definition zz_sub :: "store \<Rightarrow> nat \<Rightarrow> nat \<Rightarrow> nat \<Rightarrow> zz_err \<times> store" where
  "zz_sub s u v w = zz_addsub s u v True w"

definition zz_sub_i64 :: "store \<Rightarrow> nat \<Rightarrow> int64_t \<Rightarrow> nat \<Rightarrow> zz_err \<times> store" where
  "zz_sub_i64 s u v w = zz_addsub_i64 s u v True w"

section \<open>Division\<close>

text \<open>
  The straight-line part of \<^verbatim>\<open>zz_div\<close>, after the tests for aliasing, in two blocks:
  \<open>zz_div_tdiv\<close> is the kernel's truncating division with the trimming of both results,
  \<open>zz_div_adjust\<close> the step from the truncated to the floored quotient
  (\<^verbatim>\<open>if (ISNEG(q) && r->size) { ... }\<close>).
\<close>

definition zz_div_tdiv :: "store \<Rightarrow> nat \<Rightarrow> nat \<Rightarrow> nat \<Rightarrow> nat \<Rightarrow> store" where
  "zz_div_tdiv s u v q' r' =
     (let u_size = size_zz (s ! u);
          s1 = s[q' := zz_resize (u_size - size_zz (s ! v) + 1) (s ! q')];
          s2 = s1[r' := zz_resize (size_zz (s1 ! v)) (s1 ! r')];
          s3 = s2[q' := (s2 ! q')\<lparr>negative := (negative (s2 ! u) \<noteq> negative (s2 ! v))\<rparr>];
          s4 = s3[r' := (s3 ! r')\<lparr>negative := negative (s3 ! v)\<rparr>];
          (qp, rp) = mpn_tdiv_qr (take u_size (digits (s4 ! u)))
                                 (take (size_zz (s4 ! v)) (digits (s4 ! v)));
          s5 = s4[q' := (s4 ! q')\<lparr>digits := write_limbs qp (digits (s4 ! q'))\<rparr>];
          s6 = s5[r' := (s5 ! r')\<lparr>digits := write_limbs rp (digits (s5 ! r'))\<rparr>];
          s7 = s6[q' := (s6 ! q')\<lparr>size_zz := size_zz (s6 ! q') -
                  (if digits (s6 ! q') ! (size_zz (s6 ! q') - 1) = 0 then 1 else 0)\<rparr>]
      in s7[r' := zz_normalize (s7 ! r')])"

definition zz_div_adjust :: "store \<Rightarrow> nat \<Rightarrow> nat \<Rightarrow> nat \<Rightarrow> zz_err \<times> store" where
  "zz_div_adjust s8 v q' r' =
     (if negative (s8 ! q') \<and> size_zz (s8 ! r') \<noteq> 0 then
        (let (e, s9) = zz_sub_i64 s8 q' 1 q'
         in if e \<noteq> ZZ_OK
            then (ZZ_MEM, (s9[q' := zz_clear (s9 ! q')])[r' := zz_clear (s9 ! r')])
            else
              (let s10 = s9[r' := (s9 ! r')\<lparr>size_zz := size_zz (s9 ! v)\<rparr>];
                   n = size_zz (s10 ! v);
                   (bw, dp) = mpn_sub_n (take n (digits (s10 ! v)))
                                        (take n (digits (s10 ! r')));
                   s11 = s10[r' := (s10 ! r')\<lparr>digits :=
                             write_limbs dp (digits (s10 ! r'))\<rparr>]
               in (ZZ_OK, s11[r' := zz_normalize (s11 ! r')])))
      else (ZZ_OK, s8))"

definition zz_div_kernel :: "store \<Rightarrow> nat \<Rightarrow> nat \<Rightarrow> nat \<Rightarrow> nat \<Rightarrow> zz_err \<times> store" where
  "zz_div_kernel s u v q' r' = zz_div_adjust (zz_div_tdiv s u v q' r') v q' r'"

text \<open>The branch of \<^verbatim>\<open>zz_div\<close> for a dividend with fewer digits than the divisor.\<close>

definition zz_div_short :: "store \<Rightarrow> nat \<Rightarrow> nat \<Rightarrow> nat \<Rightarrow> nat \<Rightarrow> zz_err \<times> store" where
  "zz_div_short s u v q' r' =
     (if negative (s ! u) \<noteq> negative (s ! v) then
        (let s1 = s[q' := zz_set_i64 (- 1) (s ! q')];
             (e, s2) = zz_add s1 u v r'
         in if e \<noteq> ZZ_OK
            then (ZZ_MEM, (s2[q' := zz_clear (s2 ! q')])[r' := zz_clear (s2 ! r')])
            else (ZZ_OK, s2))
      else
        (let s1 = s[q' := zz_set_i64 0 (s ! q')]
         in (ZZ_OK, snd (zz_pos s1 u r'))))"

function zz_div :: "store \<Rightarrow> nat \<Rightarrow> nat \<Rightarrow> nat option \<Rightarrow> nat option \<Rightarrow> zz_err \<times> store" where
  "zz_div s u v q r =
     (if size_zz (s ! v) = 0 then (ZZ_VAL, s)
      else
        (case (q, r) of
           (None, None) \<Rightarrow> (ZZ_OK, s)
         | (None, Some r') \<Rightarrow>
             (let tmp = length s;
                  s1 = s @ [zz_init];
                  (ret, s2) = zz_div s1 u v (Some tmp) r
              in (ret, take (length s) (s2[tmp := zz_clear (s2 ! tmp)])))
         | (Some q', None) \<Rightarrow>
             (let tmp = length s;
                  s1 = s @ [zz_init];
                  (ret, s2) = zz_div s1 u v q (Some tmp)
              in (ret, take (length s) (s2[tmp := zz_clear (s2 ! tmp)])))
         | (Some q', Some r') \<Rightarrow>
             (if size_zz (s ! u) = 0 then
                (let s1 = s[q' := zz_set_i64 0 (s ! q')]
                 in (ZZ_OK, s1[r' := zz_set_i64 0 (s1 ! r')]))
              else if size_zz (s ! u) < size_zz (s ! v) then zz_div_short s u v q' r'
              else if u = q' \<or> u = r' then
                (let tmp = length s;
                     s1 = s @ [zz_init];
                     s2 = snd (zz_pos s1 u tmp);
                     (ret, s3) = zz_div s2 tmp v q r
                 in (ret, take (length s) (s3[tmp := zz_clear (s3 ! tmp)])))
              else if v = q' \<or> v = r' then
                (let tmp = length s;
                     s1 = s @ [zz_init];
                     s2 = snd (zz_pos s1 v tmp);
                     (ret, s3) = zz_div s2 u tmp q r
                 in (ret, take (length s) (s3[tmp := zz_clear (s3 ! tmp)])))
              else zz_div_kernel s u v q' r')))"
  by pat_completeness auto
termination
  by (relation "measure (\<lambda>(s, u, v, q, r).
        100 * ((if q = None then 1 else 0) + (if r = None then 1 else 0))
        + 10 * ((case q of None \<Rightarrow> 0 | Some a \<Rightarrow> if length s \<le> a then 1 else 0)
              + (case r of None \<Rightarrow> 0 | Some a \<Rightarrow> if length s \<le> a then 1 else 0))
        + ((if Some u = q \<or> Some u = r then 1 else 0)
         + (if Some v = q \<or> Some v = r then 1 else 0)))")
     (auto split: option.splits)

declare zz_div.simps [simp del]

section \<open>Shifting right\<close>

definition ZZ_DIGIT_T_MAX :: zz_digit_t where
  "ZZ_DIGIT_T_MAX = - 1"

text \<open>
  \<^verbatim>\<open>zz_set_i32\<close>; the digit is \<^verbatim>\<open>(zz_digit_t)abs(u)\<close>, which C leaves undefined for \<^verbatim>\<open>INT_MIN\<close>.
\<close>

definition zz_set_i32 :: "32 word \<Rightarrow> zz_t \<Rightarrow> zz_t" where
  "zz_set_i32 u v =
     (if u = 0 then v\<lparr>size_zz := 0, negative := False\<rparr>
      else
        (let v1 = zz_resize 1 v;
             v2 = v1\<lparr>negative := (sint u < 0)\<rparr>
         in v2\<lparr>digits := (digits v2)[0 := word_of_int \<bar>sint u\<bar>]\<rparr>))"

text \<open>
  The two scans of \<^verbatim>\<open>zz_quo_2exp\<close>, each over the digits it visits, in order, up to its
  \<^verbatim>\<open>break\<close>: is some digit below \<^verbatim>\<open>whole\<close> not zero, and are all digits from \<^verbatim>\<open>whole\<close> on equal
  to \<^verbatim>\<open>ZZ_DIGIT_T_MAX\<close>.
\<close>

fun quo_carry_scan :: "zz_digit_t list \<Rightarrow> bool" where
  "quo_carry_scan [] = False"
| "quo_carry_scan (d # ds) = (if d \<noteq> 0 then True else quo_carry_scan ds)"

fun quo_extra_scan :: "zz_digit_t list \<Rightarrow> bool" where
  "quo_extra_scan [] = True"
| "quo_extra_scan (d # ds) = (if d \<noteq> ZZ_DIGIT_T_MAX then False else quo_extra_scan ds)"

text \<open>
  \<^verbatim>\<open>zz_quo_2exp\<close> in three parts: \<open>zz_quo_2exp_digits\<close> is the block that shifts or copies
  the digits from \<^verbatim>\<open>whole\<close> on into the output (\<^verbatim>\<open>if (shift) { ... } else { ... }\<close>),
  \<open>zz_quo_2exp_round\<close> the rest of the function after it (the extra digit, the carry and the
  normalisation), and \<open>zz_quo_2exp\<close> the function from its entry.
\<close>

definition zz_quo_2exp_digits ::
  "store \<Rightarrow> nat \<Rightarrow> nat \<Rightarrow> nat \<Rightarrow> nat \<Rightarrow> nat \<Rightarrow> bool \<Rightarrow> bool \<times> store" where
  "zz_quo_2exp_digits s2 u v whole size' cnt carry =
     (if cnt \<noteq> 0 then
        (let (out, rp) = mpn_rshift (take size' (drop whole (digits (s2 ! u)))) cnt;
             s2a = s2[v := (s2 ! v)\<lparr>digits := write_limbs rp (digits (s2 ! v))\<rparr>]
         in (if out \<noteq> 0 then negative (s2a ! u) else carry, s2a))
      else
        (carry, s2[v := (s2 ! v)\<lparr>digits :=
           mpn_copyi (digits (s2 ! v)) (drop whole (digits (s2 ! u))) size'\<rparr>]))"

definition zz_quo_2exp_round :: "store \<Rightarrow> nat \<Rightarrow> nat \<Rightarrow> bool \<Rightarrow> bool \<Rightarrow> store" where
  "zz_quo_2exp_round s3 v size' extra carry =
     (let s4 = (if extra
                then s3[v := (s3 ! v)\<lparr>digits := (digits (s3 ! v))[size' := 0]\<rparr>]
                else s3);
          s5 =
            (if carry then
               (let (cy, rp) = mpn_add_1 (take size' (digits (s4 ! v))) 1;
                    s4a = s4[v := (s4 ! v)\<lparr>digits := write_limbs rp (digits (s4 ! v))\<rparr>]
                in if cy \<noteq> 0
                   then s4a[v := (s4a ! v)\<lparr>digits := (digits (s4a ! v))[size' := 1]\<rparr>]
                   else s4a)
             else s4)
      in s5[v := zz_normalize (s5 ! v)])"

definition zz_quo_2exp :: "store \<Rightarrow> nat \<Rightarrow> uint64_t \<Rightarrow> nat \<Rightarrow> zz_err \<times> store" where
  "zz_quo_2exp s u shift v =
     (if size_zz (s ! u) = 0 then (ZZ_OK, s[v := zz_set_i32 0 (s ! v)])
      else if word_of_nat (size_zz (s ! u)) * 64 \<le> shift
        then (ZZ_OK, s[v := zz_set_i64 (if negative (s ! u) then - 1 else 0) (s ! v)])
      else
        (let whole = unat (shift div 64);
             size = size_zz (s ! u) - whole;
             cnt = unat (shift mod 64);
             carry = (if quo_carry_scan (take whole (digits (s ! u)))
                      then negative (s ! u) else False);
             extra = quo_extra_scan (take size (drop whole (digits (s ! u))));
             s1 = s[v := zz_resize (size + (if extra then 1 else 0)) (s ! v)];
             s2 = s1[v := (s1 ! v)\<lparr>negative := negative (s1 ! u)\<rparr>];
             (carry1, s3) = zz_quo_2exp_digits s2 u v whole size cnt carry
         in (ZZ_OK, zz_quo_2exp_round s3 v size extra carry1)))"





section \<open>Square root\<close>

text \<open>The integer square root, by halving: the root of \<open>n div 4\<close> doubled, plus one when that fits.\<close>

fun isqrt :: "nat \<Rightarrow> nat" where
  "isqrt n =
     (if n < 2 then n
      else (let r = 2 * isqrt (n div 4) in if (r + 1) * (r + 1) \<le> n then r + 1 else r))"

declare isqrt.simps [simp del]

text \<open>
  \<^verbatim>\<open>mpn_sqrtrem(sp, rp, np, n)\<close> of GMP, the top word of the operand not zero: the square root
  rounded down, in \<open>(n + 1) div 2\<close> words, and the remainder; the return value is the
  normalised size of the remainder.  The remainder area has \<open>n\<close> words, and what the kernel
  leaves in it above the remainder is not specified; in the model these words are the
  parameter \<open>scratch\<close>, and the theorems hold for every value of it.
\<close>

definition mpn_sqrtrem ::
  "zz_digit_t list \<Rightarrow> zz_digit_t list \<Rightarrow> nat \<times> zz_digit_t list \<times> zz_digit_t list" where
  "mpn_sqrtrem np scratch =
     (let N = limbs_val np;
          S = isqrt N;
          R = N - S * S;
          rn = limbs_size R
      in (rn, to_limbs ((length np + 1) div 2) S, to_limbs rn R @ take (length np - rn) scratch))"

text \<open>
  \<^verbatim>\<open>zz_sqrtrem\<close>: \<open>zz_sqrtrem_kernel\<close> is the part of the function after the test \<^verbatim>\<open>u == v\<close>, with
  the remainder \<open>w\<close> given or \<^verbatim>\<open>NULL\<close>.
\<close>

definition zz_sqrtrem_kernel ::
  "store \<Rightarrow> nat \<Rightarrow> nat \<Rightarrow> nat option \<Rightarrow> zz_digit_t list \<Rightarrow> zz_err \<times> store" where
  "zz_sqrtrem_kernel s u v w scratch =
     (let s2 = s[v := zz_resize ((size_zz (s ! u) + 1) div 2) (s ! v)]
      in case w of
           Some w' \<Rightarrow>
             (let s3 = s2[w' := (s2 ! w')\<lparr>negative := False\<rparr>];
                  s4 = s3[w' := zz_resize (size_zz (s3 ! u)) (s3 ! w')];
                  (rn, sp, rp) =
                    mpn_sqrtrem (take (size_zz (s4 ! u)) (digits (s4 ! u))) scratch;
                  s5 = s4[v := (s4 ! v)\<lparr>digits := write_limbs sp (digits (s4 ! v))\<rparr>];
                  s6 = s5[w' := (s5 ! w')\<lparr>digits := write_limbs rp (digits (s5 ! w'))\<rparr>]
              in (ZZ_OK, s6[w' := (s6 ! w')\<lparr>size_zz := rn\<rparr>]))
         | None \<Rightarrow>
             (let (rn, sp, rp) =
                    mpn_sqrtrem (take (size_zz (s2 ! u)) (digits (s2 ! u))) scratch
              in (ZZ_OK, s2[v := (s2 ! v)\<lparr>digits := write_limbs sp (digits (s2 ! v))\<rparr>])))"

function zz_sqrtrem ::
  "store \<Rightarrow> nat \<Rightarrow> nat \<Rightarrow> nat option \<Rightarrow> zz_digit_t list \<Rightarrow> zz_err \<times> store" where
  "zz_sqrtrem s u v w scratch =
     (if negative (s ! u) then (ZZ_VAL, s)
      else
        (let s1 = s[v := (s ! v)\<lparr>negative := False\<rparr>]
         in if size_zz (s1 ! u) = 0 then
              (let s2 = s1[v := (s1 ! v)\<lparr>size_zz := 0\<rparr>]
               in case w of
                    None \<Rightarrow> (ZZ_OK, s2)
                  | Some w' \<Rightarrow>
                      (let s3 = s2[w' := (s2 ! w')\<lparr>size_zz := 0\<rparr>]
                       in (ZZ_OK, s3[w' := (s3 ! w')\<lparr>negative := False\<rparr>])))
            else if u = v then
              (let tmp = length s1;
                   s2 = s1 @ [zz_init];
                   s3 = snd (zz_pos s2 v tmp);
                   (ret, s4) = zz_sqrtrem s3 tmp v w scratch
               in (ret, take (length s1) (s4[tmp := zz_clear (s4 ! tmp)])))
            else zz_sqrtrem_kernel s1 u v w scratch))"
  by pat_completeness auto
termination
  by (relation "measure (\<lambda>(s, u, v, w, scratch).
        if u = v then (if length s \<le> v then 2 else 1) else 0)")
     auto

declare zz_sqrtrem.simps [simp del]

section \<open>Conversion from a double\<close>

text \<open>
  A C \<^verbatim>\<open>double\<close>: not a number, an infinity with its sign, or a finite value given by its
  sign bit, significand \<open>m\<close> and exponent \<open>e\<close>, of value \<open>\<plusminus> m * 2^e\<close>.
\<close>

datatype double = NaN | Infinity bool | Finite bool nat int

fun isnan :: "double \<Rightarrow> bool" where
  "isnan NaN = True"
| "isnan _ = False"

fun isinf :: "double \<Rightarrow> bool" where
  "isinf (Infinity _) = True"
| "isinf _ = False"

text \<open>The C comparison \<^verbatim>\<open>u < 0\<close>: false for both zeros and for \<^verbatim>\<open>NaN\<close>.\<close>

fun double_neg :: "double \<Rightarrow> bool" where
  "double_neg NaN = False"
| "double_neg (Infinity b) = b"
| "double_neg (Finite b m e) = (b \<and> m \<noteq> 0)"

text \<open>The magnitude of a finite double, truncated to an integer.\<close>

definition double_trunc :: "nat \<Rightarrow> int \<Rightarrow> nat" where
  "double_trunc m e = (if 0 \<le> e then m * 2 ^ nat e else m div 2 ^ nat (- e))"

definition DIGITS_PER_DOUBLE :: nat where
  "DIGITS_PER_DOUBLE = (53 + 64 - 2) div 64 + 1"

text \<open>
  \<^verbatim>\<open>mpz_set_d(z, u)\<close> of GMP on the object \<open>z\<close> that \<^verbatim>\<open>TMP_MPZ\<close> lays over the digits of \<open>v\<close>: the
  value of \<open>u\<close> truncated towards zero.  The kernel writes the words of the magnitude and
  returns their number with the sign of the value (\<^verbatim>\<open>_mp_size\<close>).  When the magnitude has more
  words than the buffer, the kernel takes a new buffer of its own, which the object \<open>v\<close> does
  not see; the model has no result for this case, nor for a double that is not finite.
\<close>

fun mpz_set_d :: "zz_digit_t list \<Rightarrow> double \<Rightarrow> (int \<times> zz_digit_t list) option" where
  "mpz_set_d rp (Finite b m e) =
     (let x = double_trunc m e;
          rn = limbs_size x
      in if length rp < rn then None
         else Some (if b then - int rn else int rn, write_limbs (to_limbs rn x) rp))"
| "mpz_set_d rp _ = None"

definition zz_set_double :: "double \<Rightarrow> zz_t \<Rightarrow> (zz_err \<times> zz_t) option" where
  "zz_set_double u v =
     (if isnan u then Some (ZZ_VAL, v)
      else if isinf u then Some (ZZ_BUF, v)
      else
        (let v1 = zz_resize DIGITS_PER_DOUBLE v
         in case mpz_set_d (digits v1) u of
              None \<Rightarrow> None
            | Some (mp_size, dp) \<Rightarrow>
                (let v2 = v1\<lparr>digits := dp\<rparr>;
                     v3 = v2\<lparr>negative := double_neg u\<rparr>
                 in Some (ZZ_OK, v3\<lparr>size_zz := nat \<bar>mp_size\<bar>\<rparr>))))"

section \<open>Facts about digit arrays\<close>

lemma length_to_limbs [simp]: "length (to_limbs n x) = n"
  by (induction n arbitrary: x) auto

lemma limbs_val_lt: "limbs_val ds < 2 ^ (64 * length ds)"
proof (induction ds)
  case Nil
  then show ?case by simp
next
  case (Cons d ds)
  have "unat d < 2 ^ 64" using unsigned_less [of d] by simp
  moreover have "limbs_val ds + 1 \<le> 2 ^ (64 * length ds)" using Cons by simp
  then have "2 ^ 64 * (limbs_val ds + 1) \<le> 2 ^ 64 * 2 ^ (64 * length ds)"
    by (rule mult_le_mono2)
  ultimately show ?case by (simp add: power_add)
qed

lemma limbs_val_to_limbs: "limbs_val (to_limbs n x) = x mod 2 ^ (64 * n)"
proof (induction n arbitrary: x)
  case 0
  then show ?case by simp
next
  case (Suc n)
  have "unat (word_of_nat x :: 64 word) = x mod 2 ^ 64"
    by (simp add: unat_of_nat)
  then show ?case
    using Suc [of "x div 2 ^ 64"]
    by (simp add: power_add mod_mult2_eq)
qed

lemma limbs_val_to_limbs_small: "x < 2 ^ (64 * n) \<Longrightarrow> limbs_val (to_limbs n x) = x"
  by (simp add: limbs_val_to_limbs)

lemma limbs_val_append:
  "limbs_val (xs @ ys) = limbs_val xs + 2 ^ (64 * length xs) * limbs_val ys"
  by (induction xs) (auto simp: power_add algebra_simps)

lemma to_limbs_limbs_val: "to_limbs (length ds) (limbs_val ds) = ds"
proof (induction ds)
  case Nil
  then show ?case by simp
next
  case (Cons d ds)
  have "unat d < 2 ^ 64" using unsigned_less [of d] by simp
  then have "(unat d + 2 ^ 64 * limbs_val ds) div 2 ^ 64 = limbs_val ds"
    by simp
  moreover have "(word_of_nat (unat d + 2 ^ 64 * limbs_val ds) :: 64 word) = word_of_nat (unat d)"
    unfolding word_of_nat_eq_iff by (simp add: take_bit_eq_mod)
  then have "(word_of_nat (unat d + 2 ^ 64 * limbs_val ds) :: 64 word) = d"
    by simp
  ultimately show ?case using Cons by simp
qed

lemma limbs_val_take_Suc:
  "n < length ds \<Longrightarrow> limbs_val (take (Suc n) ds) = limbs_val (take n ds) + 2 ^ (64 * n) * unat (ds ! n)"
  by (simp add: take_Suc_conv_app_nth limbs_val_append)

lemma limbs_val_replicate_zero [simp]: "limbs_val (replicate n 0) = 0"
  by (induction n) auto

lemma limbs_val_top_nonzero:
  assumes "0 < n" and "n \<le> length ds" and "ds ! (n - 1) \<noteq> 0"
  shows "2 ^ (64 * (n - 1)) \<le> limbs_val (take n ds)"
proof -
  obtain m where n: "n = Suc m" using assms(1) by (cases n) auto
  have "unat (ds ! m) \<noteq> 0" using assms(3) n by (simp add: unat_eq_0)
  then have "1 \<le> unat (ds ! m)" by simp
  then have "(2::nat) ^ (64 * m) \<le> 2 ^ (64 * m) * unat (ds ! m)"
    by simp
  then show ?thesis
    using assms(2) n by (simp add: limbs_val_take_Suc trans_le_add2)
qed

lemma limbs_val_take_lt: "n \<le> length ds \<Longrightarrow> limbs_val (take n ds) < 2 ^ (64 * n)"
  using limbs_val_lt [of "take n ds"] by simp

lemma nth_to_limbs: "i < n \<Longrightarrow> to_limbs n x ! i = word_of_nat (x div 2 ^ (64 * i))"
proof (induction n arbitrary: x i)
  case 0
  then show ?case by simp
next
  case (Suc n)
  show ?case
  proof (cases i)
    case 0
    then show ?thesis by simp
  next
    case (Suc j)
    then have "j < n" using Suc.prems by simp
    from Suc.IH [OF this, of "x div 2 ^ 64"] Suc show ?thesis
      by (simp add: div_mult2_eq power_add)
  qed
qed

lemma nth_to_limbs_last: "to_limbs (Suc m) x ! m = word_of_nat (x div 2 ^ (64 * m))"
  by (rule nth_to_limbs) simp

lemma to_limbs_top_nonzero:
  assumes "0 < n" and "2 ^ (64 * (n - 1)) \<le> x" and "x < 2 ^ (64 * n)"
  shows "to_limbs n x ! (n - 1) \<noteq> 0"
proof -
  obtain m where n: "n = Suc m" using assms(1) by (cases n) auto
  have lo: "1 \<le> x div 2 ^ (64 * m)"
    using assms(2) n by (simp add: Suc_le_eq div_greater_zero_iff)
  have "x < 2 ^ (64 * m) * 2 ^ 64" using assms(3) n by (simp add: power_add)
  then have hi: "x div 2 ^ (64 * m) < 2 ^ 64"
    by (simp add: less_mult_imp_div_less mult.commute)
  have "unat (word_of_nat (x div 2 ^ (64 * m)) :: 64 word) = x div 2 ^ (64 * m)"
    using hi by (simp add: unat_of_nat)
  then have "(word_of_nat (x div 2 ^ (64 * m)) :: 64 word) \<noteq> 0"
    using lo by (metis not_one_le_zero unat_0)
  then show ?thesis unfolding n diff_Suc_1 nth_to_limbs_last .
qed

lemma to_limbs_top_zero:
  assumes "0 < n" and "x < 2 ^ (64 * (n - 1))"
  shows "to_limbs n x ! (n - 1) = 0"
proof -
  obtain m where n: "n = Suc m" using assms(1) by (cases n) auto
  have "x div 2 ^ (64 * m) = 0" using assms(2) n by simp
  then have "(word_of_nat (x div 2 ^ (64 * m)) :: 64 word) = 0" by simp
  then show ?thesis unfolding n diff_Suc_1 nth_to_limbs_last .
qed

lemma take_to_limbs: "m \<le> n \<Longrightarrow> take m (to_limbs n x) = to_limbs m x"
proof (induction m arbitrary: n x)
  case 0
  then show ?case by simp
next
  case (Suc m)
  then obtain k where "n = Suc k" by (cases n) auto
  with Suc show ?case by simp
qed

lemma limbs_size_0 [simp]: "limbs_size 0 = 0"
  by (simp add: limbs_size.simps)

lemma limbs_size_eq_0 [simp]: "limbs_size x = 0 \<longleftrightarrow> x = 0"
  by (subst limbs_size.simps) simp

lemma limbs_size_bound: "x < 2 ^ (64 * limbs_size x)"
proof (induction x rule: limbs_size.induct)
  case (1 x)
  show ?case
  proof (cases "x = 0")
    case True
    then show ?thesis by (simp add: limbs_size.simps)
  next
    case False
    from 1 [OF False] have "x div 2 ^ 64 < 2 ^ (64 * limbs_size (x div 2 ^ 64))" .
    then have "x < 2 ^ 64 * 2 ^ (64 * limbs_size (x div 2 ^ 64))"
      by (simp add: div_less_iff_less_mult mult.commute)
    then show ?thesis
      using False by (subst limbs_size.simps) (simp add: power_add)
  qed
qed

lemma limbs_size_lower: "x \<noteq> 0 \<Longrightarrow> 2 ^ (64 * (limbs_size x - 1)) \<le> x"
proof (induction x rule: limbs_size.induct)
  case (1 x)
  show ?case
  proof (cases "x div 2 ^ 64 = 0")
    case True
    then have "limbs_size x = 1"
      using 1(2) by (subst limbs_size.simps) (simp add: limbs_size.simps)
    then show ?thesis using 1(2) by simp
  next
    case False
    from 1(1) [OF 1(2) False]
    have "2 ^ (64 * (limbs_size (x div 2 ^ 64) - 1)) \<le> x div 2 ^ 64" .
    then have "2 ^ 64 * 2 ^ (64 * (limbs_size (x div 2 ^ 64) - 1)) \<le> 2 ^ 64 * (x div 2 ^ 64)"
      by (rule mult_le_mono2)
    also have "\<dots> \<le> x" by simp
    finally have a: "2 ^ 64 * 2 ^ (64 * (limbs_size (x div 2 ^ 64) - 1)) \<le> x" .
    have b: "0 < limbs_size (x div 2 ^ 64)"
      using False by (metis limbs_size_eq_0 not_gr_zero)
    have c: "limbs_size x = Suc (limbs_size (x div 2 ^ 64))"
      using 1(2) by (subst limbs_size.simps) simp
    have "64 * (limbs_size x - 1) = 64 + 64 * (limbs_size (x div 2 ^ 64) - 1)"
      using b unfolding c by simp
    then show ?thesis using a by (simp add: power_add)
  qed
qed

lemma limbs_size_le: "x < 2 ^ (64 * n) \<Longrightarrow> limbs_size x \<le> n"
proof (rule ccontr)
  assume x: "x < 2 ^ (64 * n)" and gt: "\<not> limbs_size x \<le> n"
  have nz: "x \<noteq> 0"
  proof
    assume "x = 0"
    then have "limbs_size x = 0" by simp
    with gt show False by simp
  qed
  have n: "n \<le> limbs_size x - 1" using gt by simp
  have "(2::nat) ^ (64 * n) \<le> 2 ^ (64 * (limbs_size x - 1))"
    using n by (simp add: power_increasing)
  also have "\<dots> \<le> x" using limbs_size_lower [OF nz] .
  finally show False using x by simp
qed

lemma zz_normalize_loop_le: "zz_normalize_loop ds n \<le> n"
  by (induction n) auto

lemma zz_normalize_loop_val:
  "n \<le> length ds \<Longrightarrow> limbs_val (take (zz_normalize_loop ds n) ds) = limbs_val (take n ds)"
  by (induction n) (auto simp: limbs_val_take_Suc)

lemma zz_normalize_loop_top:
  "zz_normalize_loop ds n = 0 \<or> ds ! (zz_normalize_loop ds n - 1) \<noteq> 0"
  by (induction n) auto

section \<open>Facts about single objects\<close>

lemma canonical_wf: "canonical z \<Longrightarrow> alloc z = length (digits z) \<and> size_zz z \<le> length (digits z)"
  by (auto simp: canonical_def)

lemma zz_mag_lt: "size_zz z \<le> length (digits z) \<Longrightarrow> zz_mag z < 2 ^ (64 * size_zz z)"
  unfolding zz_mag_def by (rule limbs_val_take_lt)

lemma canonical_mag_lower:
  assumes "canonical z" and "0 < size_zz z"
  shows "2 ^ (64 * (size_zz z - 1)) \<le> zz_mag z"
proof -
  from assms have "digits z ! (size_zz z - 1) \<noteq> 0" and "size_zz z \<le> length (digits z)"
    by (auto simp: canonical_def)
  from limbs_val_top_nonzero [OF assms(2) this(2) this(1)] show ?thesis
    by (simp add: zz_mag_def)
qed

lemma canonical_mag_zero_iff: "canonical z \<Longrightarrow> zz_mag z = 0 \<longleftrightarrow> size_zz z = 0"
proof
  assume c: "canonical z" and "zz_mag z = 0"
  show "size_zz z = 0"
  proof (rule ccontr)
    assume "size_zz z \<noteq> 0"
    then have "2 ^ (64 * (size_zz z - 1)) \<le> zz_mag z"
      using canonical_mag_lower [OF c] by simp
    then show False using \<open>zz_mag z = 0\<close> by simp
  qed
next
  assume "size_zz z = 0"
  then show "zz_mag z = 0" by (simp add: zz_mag_def)
qed

lemma canonical_val_zero_iff: "canonical z \<Longrightarrow> zz_val z = 0 \<longleftrightarrow> size_zz z = 0"
  using canonical_mag_zero_iff [of z] by (auto simp: zz_val_def)

lemma canonical_negative_val: "canonical z \<Longrightarrow> negative z \<longleftrightarrow> zz_val z < 0"
  using canonical_mag_zero_iff [of z] by (auto simp: zz_val_def canonical_def)

lemma canonical_mag_size_lt:
  assumes "canonical a" and "canonical b" and "size_zz b < size_zz a"
  shows "zz_mag b < zz_mag a"
proof -
  have "zz_mag b < 2 ^ (64 * size_zz b)"
    using assms(2) by (simp add: zz_mag_lt canonical_def)
  also have "(2::nat) ^ (64 * size_zz b) \<le> 2 ^ (64 * (size_zz a - 1))"
    using assms(3) by (simp add: power_increasing)
  also have "\<dots> \<le> zz_mag a"
    using canonical_mag_lower [OF assms(1)] assms(3) by simp
  finally show ?thesis .
qed

lemma zz_resize_wf:
  assumes "alloc z = length (digits z)"
  shows "alloc (zz_resize n z) = length (digits (zz_resize n z))"
    and "size_zz (zz_resize n z) = n"
    and "n \<le> length (digits (zz_resize n z))"
    and "k \<le> length (digits z) \<Longrightarrow> take k (digits (zz_resize n z)) = take k (digits z)"
  using assms by (auto simp: zz_resize_def realloc_def Let_def)

lemma zz_normalize_canonical:
  assumes "alloc z = length (digits z)" and "size_zz z \<le> length (digits z)"
  shows "canonical (zz_normalize z)"
    and "zz_mag (zz_normalize z) = zz_mag z"
    and "negative (zz_normalize z) = (negative z \<and> zz_mag z \<noteq> 0)"
    and "digits (zz_normalize z) = digits z"
proof -
  let ?m = "zz_normalize_loop (digits z) (size_zz z)"
  have le: "?m \<le> size_zz z" by (rule zz_normalize_loop_le)
  have val: "limbs_val (take ?m (digits z)) = limbs_val (take (size_zz z) (digits z))"
    using assms(2) by (rule zz_normalize_loop_val)
  have top: "?m = 0 \<or> digits z ! (?m - 1) \<noteq> 0" by (rule zz_normalize_loop_top)
  have pos: "?m \<noteq> 0 \<Longrightarrow> zz_mag z \<noteq> 0"
  proof -
    assume m: "?m \<noteq> 0"
    then have "digits z ! (?m - 1) \<noteq> 0" using top by simp
    then have "2 ^ (64 * (?m - 1)) \<le> limbs_val (take ?m (digits z))"
      using m le assms(2) by (intro limbs_val_top_nonzero) auto
    moreover have "(0::nat) < 2 ^ (64 * (?m - 1))" by simp
    ultimately have "0 < limbs_val (take ?m (digits z))" by linarith
    then show ?thesis by (simp add: zz_mag_def val)
  qed
  have zero: "zz_mag z = 0" if m: "?m = 0"
  proof -
    have "limbs_val (take (size_zz z) (digits z)) = limbs_val (take ?m (digits z))"
      using val by simp
    also have "\<dots> = 0" unfolding m by simp
    finally show ?thesis by (simp add: zz_mag_def)
  qed
  show "canonical (zz_normalize z)"
    using assms le top by (auto simp: canonical_def zz_normalize_def Let_def)
  show "zz_mag (zz_normalize z) = zz_mag z"
    using zero by (simp add: zz_mag_def zz_normalize_def Let_def val)
  show "negative (zz_normalize z) = (negative z \<and> zz_mag z \<noteq> 0)"
    using pos zero by (auto simp: zz_normalize_def Let_def)
  show "digits (zz_normalize z) = digits z"
    by (simp add: zz_normalize_def Let_def)
qed

lemma zz_normalize_val:
  assumes "alloc z = length (digits z)" and "size_zz z \<le> length (digits z)"
  shows "zz_val (zz_normalize z) = zz_val z"
  using zz_normalize_canonical(2,3) [OF assms] by (auto simp: zz_val_def)

text \<open>An output object after \<^verbatim>\<open>zz_resize\<close>, \<^verbatim>\<open>SETNEG\<close> and the write of its digits.\<close>

lemma output_object:
  fixes z :: zz_t and b :: bool and ws :: "zz_digit_t list" and n :: nat
  assumes "alloc z = length (digits z)" and "length ws = n"
  defines "z' \<equiv> (zz_resize n z)\<lparr>negative := b, digits := write_limbs ws (digits (zz_resize n z))\<rparr>"
  shows "alloc z' = length (digits z')" and "size_zz z' = n" and "take n (digits z') = ws"
    and "zz_mag z' = limbs_val ws" and "negative z' = b"
proof -
  have len: "n \<le> length (digits (zz_resize n z))"
    using assms(1) by (rule zz_resize_wf)
  show "alloc z' = length (digits z')"
    using zz_resize_wf(1) [OF assms(1), of n] len assms(2) by (simp add: z'_def write_limbs_def)
  show "size_zz z' = n"
    using zz_resize_wf(2) [OF assms(1), of n] by (simp add: z'_def)
  show "take n (digits z') = ws"
    using assms(2) by (simp add: z'_def write_limbs_def)
  then show "zz_mag z' = limbs_val ws"
    using \<open>size_zz z' = n\<close> by (simp add: zz_mag_def)
  show "negative z' = b" by (simp add: z'_def)
qed

lemma zz_set_i64_0: "alloc z = length (digits z) \<Longrightarrow>
    canonical (zz_set_i64 0 z) \<and> zz_val (zz_set_i64 0 z) = 0"
  by (simp add: zz_set_i64_def canonical_def zz_val_def zz_mag_def)

lemma ABS_CAST_nonzero: "x \<noteq> 0 \<Longrightarrow> ABS_CAST x \<noteq> 0"
  by (simp add: ABS_CAST_def)

lemma zz_set_i64_nonzero:
  assumes "alloc z = length (digits z)" and "x \<noteq> 0"
  shows "canonical (zz_set_i64 x z)"
    and "zz_mag (zz_set_i64 x z) = unat (ABS_CAST x)"
    and "negative (zz_set_i64 x z) = (sint x < 0)"
proof -
  have nz: "ABS_CAST x \<noteq> 0" using assms(2) by (rule ABS_CAST_nonzero)
  show "canonical (zz_set_i64 x z)"
    using assms nz
    by (cases "digits z")
       (auto simp: zz_set_i64_def canonical_def zz_resize_def realloc_def Let_def)
  show "zz_mag (zz_set_i64 x z) = unat (ABS_CAST x)"
    using assms
    by (cases "digits z")
       (auto simp: zz_set_i64_def zz_mag_def zz_resize_def realloc_def Let_def)
  show "negative (zz_set_i64 x z) = (sint x < 0)"
    using assms by (simp add: zz_set_i64_def Let_def)
qed

lemma zz_set_i64_m1: "alloc z = length (digits z) \<Longrightarrow>
    canonical (zz_set_i64 (- 1) z) \<and> zz_val (zz_set_i64 (- 1) z) = - 1"
  using zz_set_i64_nonzero [of z "- 1"] by (simp add: zz_val_def ABS_CAST_def)

lemma zz_set_i64_1: "alloc z = length (digits z) \<Longrightarrow>
    canonical (zz_set_i64 1 z) \<and> zz_val (zz_set_i64 1 z) = 1"
  using zz_set_i64_nonzero [of z 1] by (simp add: zz_val_def ABS_CAST_def)

section \<open>Addition and subtraction: correctness\<close>

definition signed_mag :: "bool \<Rightarrow> nat \<Rightarrow> int" where
  "signed_mag b n = (if b then - int n else int n)"

lemma zz_val_signed_mag: "zz_val z = signed_mag (negative z) (zz_mag z)"
  by (simp add: zz_val_def signed_mag_def)

text \<open>Reading an operand after the output, which may be the same object, was resized.\<close>

lemma read_after_resize:
  assumes "u < length s" and "w < length s" and "canonical (s ! u)" and "k \<le> size_zz (s ! u)"
  shows "take k (digits (s[w := (zz_resize n (s ! w))\<lparr>negative := b\<rparr>] ! u)) = take k (digits (s ! u))"
proof (cases "u = w")
  case True
  have "alloc (s ! w) = length (digits (s ! w))" and "k \<le> length (digits (s ! w))"
    using assms(3,4) True by (auto simp: canonical_def)
  then show ?thesis
    using assms(2) True by (simp add: zz_resize_wf(4))
next
  case False
  then show ?thesis by simp
qed

lemma unat_word_of_nat_small: "c < 2 ^ 64 \<Longrightarrow> unat (word_of_nat c :: 64 word) = c"
  by (simp add: unat_of_nat)

lemma normalize_result:
  assumes "w < length s" and "alloc zf = length (digits zf)" and "size_zz zf \<le> length (digits zf)"
    and "zz_val zf = x"
  shows "\<exists>z. s[w := zz_normalize zf] = s[w := z] \<and> canonical z \<and> zz_val z = x"
  using assms by (intro exI [of _ "zz_normalize zf"]) (simp add: zz_normalize_canonical zz_normalize_val)

lemma fst_mpn_add: "fst (mpn_add up vp) = word_of_nat ((limbs_val up + limbs_val vp) div 2 ^ (64 * length up))"
  and snd_mpn_add: "snd (mpn_add up vp) = to_limbs (length up) (limbs_val up + limbs_val vp)"
  by (simp_all add: mpn_add_def Let_def)

lemma snd_mpn_sub:
  assumes "limbs_val vp \<le> limbs_val up"
  shows "snd (mpn_sub up vp) = to_limbs (length up) (limbs_val up - limbs_val vp)"
proof -
  let ?K = "64 * length up"
  have lt: "limbs_val up - limbs_val vp < 2 ^ ?K"
    using limbs_val_lt [of up] by simp
  have "int (limbs_val up) - int (limbs_val vp) = int (limbs_val up - limbs_val vp)"
    using assms by simp
  moreover have "int (limbs_val up - limbs_val vp) mod 2 ^ ?K
      = int ((limbs_val up - limbs_val vp) mod 2 ^ ?K)"
    by (simp add: zmod_int)
  ultimately have "nat ((int (limbs_val up) - int (limbs_val vp)) mod 2 ^ ?K)
      = (limbs_val up - limbs_val vp) mod 2 ^ ?K"
    by (simp only: nat_int)
  also have "\<dots> = limbs_val up - limbs_val vp" using lt by simp
  finally show ?thesis by (simp add: mpn_sub_def)
qed

lemma snd_mpn_sub_n:
  "limbs_val vp \<le> limbs_val up \<Longrightarrow>
     snd (mpn_sub_n up vp) = to_limbs (length up) (limbs_val up - limbs_val vp)"
  by (simp add: mpn_sub_n_def snd_mpn_sub)

lemma mpn_cmp_simps:
  "mpn_cmp up vp < 0 \<longleftrightarrow> limbs_val up < limbs_val vp"
  "0 < mpn_cmp up vp \<longleftrightarrow> limbs_val vp < limbs_val up"
  by (auto simp: mpn_cmp_def)

lemma pow64_mono: "a \<le> b \<Longrightarrow> (2::nat) ^ (64 * a) \<le> 2 ^ (64 * b)"
  by (simp add: power_increasing)

lemma size_zz_resize [simp]: "size_zz (zz_resize n z) = n"
  by (simp add: zz_resize_def Let_def)

lemma take_write_limbs [simp]: "take (length ws) (write_limbs ws buf) = ws"
  by (simp add: write_limbs_def)

lemma take_write_to_limbs [simp]: "take n (write_limbs (to_limbs n x) buf) = to_limbs n x"
  by (simp add: write_limbs_def)

lemma length_write_limbs: "length (write_limbs ws buf) = max (length ws) (length buf)"
  by (simp add: write_limbs_def)

lemma take_write_top [simp]:
  "n < length buf \<Longrightarrow>
     take (Suc n) ((write_limbs (to_limbs n x) buf)[n := c]) = to_limbs n x @ [c]"
  by (simp add: write_limbs_def list_update_append take_Suc_conv_app_nth nth_append)

lemma div_pow_carry: "(R::nat) < 2 ^ 64 * 2 ^ K \<Longrightarrow> R div 2 ^ K < 2 ^ 64"
  by (simp add: less_mult_imp_div_less)

lemma zz_addsub_swapped_spec:
  fixes negu negv :: bool
  assumes u: "u < length s" and v: "v < length s" and w: "w < length s"
    and cu: "canonical (s ! u)" and cv: "canonical (s ! v)" and cw: "alloc (s ! w) = length (digits (s ! w))"
    and sz: "size_zz (s ! v) \<le> size_zz (s ! u)"
    and nobuf: "\<not> (negu = negv \<and> size_zz (s ! u) = ZZ_DIGITS_MAX)"
  shows "\<exists>z. zz_addsub_swapped s u v negu negv (negu = negv) w = (ZZ_OK, s[w := z])
           \<and> canonical z
           \<and> zz_val z = signed_mag negu (zz_mag (s ! u)) + signed_mag negv (zz_mag (s ! v))"
proof -
  define n where "n = size_zz (s ! u)"
  define m where "m = size_zz (s ! v)"
  define A where "A = zz_mag (s ! u)"
  define B where "B = zz_mag (s ! v)"
  have szs: "size_zz (s ! u) = n" "size_zz (s ! v) = m" by (simp_all add: n_def m_def)
  have mn: "m \<le> n" using sz by (simp add: n_def m_def)
  have ww: "alloc (s ! w) = length (digits (s ! w))"
    using cw by simp
  have lu: "n \<le> length (digits (s ! u))"
    using cu by (simp add: canonical_def n_def)
  have lv: "m \<le> length (digits (s ! v))"
    using cv by (simp add: canonical_def m_def)
  have rd: "take n (digits (s[w := (zz_resize k (s ! w))\<lparr>negative := b\<rparr>] ! u)) = take n (digits (s ! u))"
       "take m (digits (s[w := (zz_resize k (s ! w))\<lparr>negative := b\<rparr>] ! v)) = take m (digits (s ! v))"
    for k b
    using read_after_resize [OF u w cu, of n] read_after_resize [OF v w cv, of m]
    by (simp_all add: n_def m_def)
  have AB: "limbs_val (take n (digits (s ! u))) = A" "limbs_val (take m (digits (s ! v))) = B"
    by (simp_all add: A_def B_def zz_mag_def n_def m_def)
  have Alt: "A < 2 ^ (64 * n)"
    using zz_mag_lt [of "s ! u"] lu by (simp add: A_def n_def)
  have Blt: "B < 2 ^ (64 * m)"
    using zz_mag_lt [of "s ! v"] lv by (simp add: B_def m_def)
  have Blt': "B < 2 ^ (64 * n)"
    using Blt pow64_mono [OF mn] by (rule less_le_trans)
  note r = zz_resize_wf [OF ww]
  show ?thesis
  proof (cases "negu = negv")
    case True
    have nb: "n \<noteq> ZZ_DIGITS_MAX" using nobuf True by (simp add: n_def)
    have "A + B < 2 * 2 ^ (64 * n)" using Alt Blt' by simp
    then have "A + B < 2 ^ 64 * 2 ^ (64 * n)" by simp
    then have cy: "(A + B) div 2 ^ (64 * n) < 2 ^ 64" by (rule div_pow_carry)
    have val: "signed_mag negu A + signed_mag negv B = signed_mag negv (A + B)"
      using True by (simp add: signed_mag_def)
    have rl: "n < length (digits (zz_resize (Suc n) (s ! w)))"
      using r(3) [of "Suc n"] by simp
    show ?thesis
      unfolding zz_addsub_swapped_def Let_def A_def [symmetric] B_def [symmetric] szs val
      using w lu lv nb True cy rl
      apply (simp add: case_prod_beta rd AB fst_mpn_add snd_mpn_add)
      apply (rule normalize_result [OF w])
      apply (simp_all add: r length_write_limbs zz_val_signed_mag zz_mag_def limbs_val_to_limbs
          limbs_val_append unat_word_of_nat_small max_def)
      done
  next
    case False
    then have nv: "negv = (\<not> negu)" by auto
    show ?thesis
    proof (cases "n = m")
      case False
      then have "m < n" using mn by simp
      then have "B < A"
        using canonical_mag_size_lt [OF cu cv] by (simp add: A_def B_def n_def m_def)
      then have le: "B \<le> A" by simp
      have bound: "A - B < 2 ^ (64 * n)" using Alt by simp
      have val: "signed_mag negu A + signed_mag negv B = signed_mag negu (A - B)"
        using le nv by (simp add: signed_mag_def)
      show ?thesis
        unfolding zz_addsub_swapped_def Let_def A_def [symmetric] B_def [symmetric] szs val
        using w lu lv False nv le bound
        apply (simp add: case_prod_beta rd AB snd_mpn_sub)
        apply (rule normalize_result [OF w])
        apply (simp_all add: r length_write_limbs zz_val_signed_mag zz_mag_def limbs_val_to_limbs)
        done
    next
      case True
      note eqsz = True
      have AB': "limbs_val (take m (digits (s ! u))) = A"
        using AB(1) eqsz by simp
      have rd': "take m (digits (s[w := (zz_resize k (s ! w))\<lparr>negative := b\<rparr>] ! u))
          = take m (digits (s ! u))" for k b
        using rd(1) eqsz by simp
      have lu': "m \<le> length (digits (s ! u))" using lu eqsz by simp
      have Alt': "A < 2 ^ (64 * m)" using Alt eqsz by simp
      consider (lt) "A < B" | (gt) "B < A" | (eq) "A = B" by linarith
      then show ?thesis
      proof cases
        case lt
        have bound: "B - A < 2 ^ (64 * m)" using Blt by simp
        have val: "signed_mag negu A + signed_mag negv B = signed_mag negv (B - A)"
          using lt nv by (simp add: signed_mag_def)
        show ?thesis
          unfolding zz_addsub_swapped_def Let_def A_def [symmetric] B_def [symmetric] szs val eqsz
          using w lu' lv nv lt bound
          apply (simp add: case_prod_beta rd rd' AB AB' snd_mpn_sub_n mpn_cmp_simps)
          apply (rule normalize_result [OF w])
          apply (simp_all add: r length_write_limbs zz_val_signed_mag zz_mag_def limbs_val_to_limbs)
          done
      next
        case gt
        have bound: "A - B < 2 ^ (64 * m)" using Alt' by simp
        have val: "signed_mag negu A + signed_mag negv B = signed_mag negu (A - B)"
          using gt nv by (simp add: signed_mag_def)
        show ?thesis
          unfolding zz_addsub_swapped_def Let_def A_def [symmetric] B_def [symmetric] szs val eqsz
          using w lu' lv nv gt bound
          apply (simp add: case_prod_beta rd rd' AB AB' snd_mpn_sub_n mpn_cmp_simps)
          apply (rule normalize_result [OF w])
          apply (simp_all add: r length_write_limbs zz_val_signed_mag zz_mag_def limbs_val_to_limbs)
          done
      next
        case eq
        have val: "signed_mag negu A + signed_mag negv B = 0"
          using eq nv by (simp add: signed_mag_def)
        show ?thesis
          unfolding zz_addsub_swapped_def Let_def A_def [symmetric] B_def [symmetric] szs val eqsz
          using w lu' lv nv eq
          apply (simp add: case_prod_beta rd rd' AB AB' mpn_cmp_simps)
          apply (rule normalize_result [OF w])
          apply (simp_all add: r zz_val_def zz_mag_def)
          done
      qed
    qed
  qed
qed

lemma zz_addsub_spec:
  assumes u: "u < length s" and v: "v < length s" and w: "w < length s"
    and cu: "canonical (s ! u)" and cv: "canonical (s ! v)" and cw: "alloc (s ! w) = length (digits (s ! w))"
    and nobuf: "size_zz (s ! u) < ZZ_DIGITS_MAX" "size_zz (s ! v) < ZZ_DIGITS_MAX"
  shows "\<exists>z. zz_addsub s u v sub w = (ZZ_OK, s[w := z])
           \<and> canonical z
           \<and> zz_val z = zz_val (s ! u) + (if sub then - zz_val (s ! v) else zz_val (s ! v))"
proof -
  define negv where "negv = (if sub then \<not> negative (s ! v) else negative (s ! v))"
  have vv: "signed_mag negv (zz_mag (s ! v)) = (if sub then - zz_val (s ! v) else zz_val (s ! v))"
    by (simp add: negv_def signed_mag_def zz_val_def)
  have uu: "signed_mag (negative (s ! u)) (zz_mag (s ! u)) = zz_val (s ! u)"
    by (simp add: zz_val_signed_mag)
  show ?thesis
  proof (cases "size_zz (s ! u) < size_zz (s ! v)")
    case True
    then have sz: "size_zz (s ! u) \<le> size_zz (s ! v)" by simp
    have nb: "\<not> (negv = negative (s ! u) \<and> size_zz (s ! v) = ZZ_DIGITS_MAX)"
      using nobuf by simp
    from zz_addsub_swapped_spec [OF v u w cv cu cw sz nb]
    show ?thesis
      using True by (simp add: zz_addsub_def Let_def negv_def [symmetric] vv uu eq_commute add.commute)
  next
    case False
    then have sz: "size_zz (s ! v) \<le> size_zz (s ! u)" by simp
    have nb: "\<not> (negative (s ! u) = negv \<and> size_zz (s ! u) = ZZ_DIGITS_MAX)"
      using nobuf by simp
    from zz_addsub_swapped_spec [OF u v w cu cv cw sz nb]
    show ?thesis
      using False by (simp add: zz_addsub_def Let_def negv_def [symmetric] vv uu)
  qed
qed

lemma zz_add_spec:
  assumes "u < length s" and "v < length s" and "w < length s"
    and "canonical (s ! u)" and "canonical (s ! v)" and "alloc (s ! w) = length (digits (s ! w))"
    and "size_zz (s ! u) < ZZ_DIGITS_MAX" and "size_zz (s ! v) < ZZ_DIGITS_MAX"
  shows "\<exists>z. zz_add s u v w = (ZZ_OK, s[w := z]) \<and> canonical z
           \<and> zz_val z = zz_val (s ! u) + zz_val (s ! v)"
  using zz_addsub_spec [OF assms, of False] by (simp add: zz_add_def)

lemma zz_sub_spec:
  assumes "u < length s" and "v < length s" and "w < length s"
    and "canonical (s ! u)" and "canonical (s ! v)" and "alloc (s ! w) = length (digits (s ! w))"
    and "size_zz (s ! u) < ZZ_DIGITS_MAX" and "size_zz (s ! v) < ZZ_DIGITS_MAX"
  shows "\<exists>z. zz_sub s u v w = (ZZ_OK, s[w := z]) \<and> canonical z
           \<and> zz_val z = zz_val (s ! u) - zz_val (s ! v)"
  using zz_addsub_spec [OF assms, of True] by (simp add: zz_sub_def)

section \<open>Copying: correctness\<close>

lemma zz_pos_spec:
  assumes u: "u < length s" and v: "v < length s" and ne: "u \<noteq> v"
    and cu: "canonical (s ! u)" and cv: "alloc (s ! v) = length (digits (s ! v))"
  shows "\<exists>z. zz_pos s u v = (ZZ_OK, s[v := z]) \<and> canonical z \<and> zz_val z = zz_val (s ! u)
           \<and> size_zz z = size_zz (s ! u)"
proof (cases "size_zz (s ! u) = 0")
  case True
  then have "zz_val (s ! u) = 0" using cu by (simp add: canonical_val_zero_iff)
  moreover have "size_zz (zz_set_i64 0 (s ! v)) = 0" by (simp add: zz_set_i64_def)
  ultimately show ?thesis
    using True ne zz_set_i64_0 [OF cv]
    by (intro exI [of _ "zz_set_i64 0 (s ! v)"]) (simp add: zz_pos_def)
next
  case False
  define n where "n = size_zz (s ! u)"
  have n: "0 < n" "n \<le> length (digits (s ! u))" "digits (s ! u) ! (n - 1) \<noteq> 0"
    using False cu by (auto simp: n_def canonical_def)
  note r = zz_resize_wf [OF cv]
  have rl: "n \<le> length (digits (zz_resize n (s ! v)))" by (rule r(3))
  let ?z = "(zz_resize n (s ! v))\<lparr>negative := negative (s ! u),
      digits := write_limbs (take n (digits (s ! u))) (digits (zz_resize n (s ! v)))\<rparr>"
  have eq: "zz_pos s u v = (ZZ_OK, s[v := ?z])"
    using False ne u v by (simp add: zz_pos_def Let_def mpn_copyi_def n_def)
  have "(take n (digits (s ! u)) @ drop n (digits (zz_resize n (s ! v)))) ! (n - 1)
      = digits (s ! u) ! (n - 1)"
    using n by (simp add: nth_append)
  then have can: "canonical ?z"
    using n rl r(1) [of n] by (simp add: canonical_def write_limbs_def)
  have "zz_val ?z = zz_val (s ! u)"
    using n by (simp add: zz_val_def zz_mag_def write_limbs_def n_def)
  then show ?thesis using eq can by (auto simp: n_def)
qed

section \<open>Division: correctness\<close>

lemma fst_mpn_add_1: "fst (mpn_add_1 up v) = word_of_nat ((limbs_val up + unat v) div 2 ^ (64 * length up))"
  and snd_mpn_add_1: "snd (mpn_add_1 up v) = to_limbs (length up) (limbs_val up + unat v)"
  by (simp_all add: mpn_add_1_def Let_def)

text \<open>The step \<^verbatim>\<open>zz_sub_i64(q, 1, q)\<close> on a quotient whose sign flag is set.\<close>

lemma zz_sub_i64_one:
  assumes q: "q < length s" and wf: "alloc (s ! q) = length (digits (s ! q))"
    and sz: "size_zz (s ! q) \<le> length (digits (s ! q))"
    and neg: "negative (s ! q)" and nb: "size_zz (s ! q) \<noteq> ZZ_DIGITS_MAX"
  shows "\<exists>z. zz_sub_i64 s q 1 q = (ZZ_OK, s[q := z]) \<and> canonical z
           \<and> zz_val z = - int (zz_mag (s ! q)) - 1"
proof -
  define n where "n = size_zz (s ! q)"
  define A where "A = zz_mag (s ! q)"
  note r = zz_resize_wf [OF wf]
  have szs: "size_zz (s ! q) = n" by (simp add: n_def)
  have A: "limbs_val (take n (digits (s ! q))) = A" by (simp add: A_def zz_mag_def n_def)
  have Alt: "A < 2 ^ (64 * n)" using zz_mag_lt [OF sz] by (simp add: A_def n_def)
  have ln: "n \<le> length (digits (s ! q))" using sz by (simp add: n_def)
  have one: "ABS_CAST 1 = 1" "(0::int) \<le> sint (1::64 word)" by (simp_all add: ABS_CAST_def)
  show ?thesis
  proof (cases "n = 0")
    case True
    then have A0: "A = 0" using A by simp
    have l1: "Suc 0 \<le> length (digits (zz_resize (Suc 0) (s ! q)))"
      using r(3) [of "Suc 0"] by simp
    then obtain d ds where dd: "digits (zz_resize (Suc 0) (s ! q)) = d # ds"
      by (cases "digits (zz_resize (Suc 0) (s ! q))") auto
    show ?thesis
      unfolding zz_sub_i64_def zz_addsub_i64_def zz_addsub_u64_def Let_def one szs
          A_def [symmetric]
      using q True A0 neg r(1) [of "Suc 0"] l1
      apply (simp add: case_prod_beta)
      apply (rule exI, rule conjI, rule refl)
      apply (simp add: canonical_def zz_val_def zz_mag_def dd)
      done
  next
    case False
    have nb': "n \<noteq> ZZ_DIGITS_MAX" using nb by (simp add: n_def)
    have "A + 1 < 2 ^ 64 * 2 ^ (64 * n)"
    proof -
      have "A + 1 \<le> 2 ^ (64 * n)" using Alt by simp
      also have "(2::nat) ^ (64 * n) < 2 ^ 64 * 2 ^ (64 * n)" by simp
      finally show ?thesis .
    qed
    then have cy: "Suc A div 2 ^ (64 * n) < 2 ^ 64"
      using div_pow_carry [of "A + 1" "64 * n"] by simp
    have rl: "n < length (digits (zz_resize (Suc n) (s ! q)))"
      using r(3) [of "Suc n"] by simp
    have rd: "take n (digits (zz_resize (Suc n) (s ! q))) = take n (digits (s ! q))"
      using ln by (rule r(4))
    show ?thesis
      unfolding zz_sub_i64_def zz_addsub_i64_def zz_addsub_u64_def Let_def one szs
          A_def [symmetric]
      using q False nb' neg cy rl ln
      apply (simp add: case_prod_beta rd A fst_mpn_add_1 snd_mpn_add_1)
      apply (rule normalize_result [OF q])
      apply (simp_all add: r length_write_limbs zz_val_signed_mag zz_mag_def limbs_val_to_limbs
          limbs_val_append unat_word_of_nat_small max_def signed_mag_def)
      done
  qed
qed

lemma div_bounds:
  fixes N D :: nat
  assumes "0 < m" and "m \<le> n" and "N < 2 ^ (64 * n)" and "2 ^ (64 * (m - 1)) \<le> D"
  shows "N div D < 2 ^ (64 * (n - m + 1))"
proof -
  have "64 * n = 64 * (n - m + 1) + 64 * (m - 1)" using assms(1,2) by simp
  then have "(2::nat) ^ (64 * n) = 2 ^ (64 * (n - m + 1)) * 2 ^ (64 * (m - 1))"
    by (simp only: power_add)
  also have "\<dots> \<le> 2 ^ (64 * (n - m + 1)) * D" using assms(4) by (rule mult_le_mono2)
  finally have "N < 2 ^ (64 * (n - m + 1)) * D" using assms(3) by simp
  moreover have "0 < D"
  proof -
    have "(0::nat) < 2 ^ (64 * (m - 1))" by simp
    with assms(4) show ?thesis by linarith
  qed
  ultimately show ?thesis by (simp add: less_mult_imp_div_less)
qed

lemma div_lower:
  fixes N D :: nat
  assumes "m < n" and "2 ^ (64 * (n - 1)) \<le> N" and "D < 2 ^ (64 * m)" and "0 < D"
  shows "2 ^ (64 * (n - m - 1)) \<le> N div D"
proof -
  have "64 * (n - 1) = 64 * (n - m - 1) + 64 * m" using assms(1) by simp
  then have e: "(2::nat) ^ (64 * (n - 1)) = 2 ^ (64 * (n - m - 1)) * 2 ^ (64 * m)"
    by (simp only: power_add)
  have "2 ^ (64 * (n - m - 1)) * D \<le> 2 ^ (64 * (n - m - 1)) * 2 ^ (64 * m)"
    using assms(3) by simp
  also have "\<dots> \<le> N" using assms(2) e by simp
  finally show ?thesis using assms(4) by (simp add: less_eq_div_iff_mult_less_eq)
qed

text \<open>An output object whose top digit is trimmed when it is zero (\<^verbatim>\<open>size -= top == 0\<close>).\<close>

lemma trim_top_object:
  fixes z0 :: zz_t and b :: bool and x k :: nat
  assumes wf: "alloc z0 = length (digits z0)"
    and hi: "x < 2 ^ (64 * Suc k)"
    and lo: "k = 0 \<or> 2 ^ (64 * (k - 1)) \<le> x"
  defines "zq \<equiv> (zz_resize (Suc k) z0)\<lparr>negative := b,
      digits := write_limbs (to_limbs (Suc k) x) (digits (zz_resize (Suc k) z0))\<rparr>"
  defines "zt \<equiv> zq\<lparr>size_zz := size_zz zq - (if digits zq ! (size_zz zq - 1) = 0 then 1 else 0)\<rparr>"
  shows "alloc zt = length (digits zt)" and "size_zz zt \<le> length (digits zt)"
    and "size_zz zt \<le> Suc k" and "zz_mag zt = x" and "negative zt = b"
    and "size_zz zt = 0 \<or> digits zt ! (size_zz zt - 1) \<noteq> 0"
proof -
  note r = zz_resize_wf [OF wf, of "Suc k"]
  define L where "L = to_limbs (Suc k) x"
  have lenL: "length L = Suc k" by (simp add: L_def del: to_limbs.simps)
  have tkL: "take k L = to_limbs k x"
    unfolding L_def by (rule take_to_limbs) simp
  have dq: "digits zq = L @ drop (Suc k) (digits (zz_resize (Suc k) z0))"
    by (simp add: zq_def write_limbs_def L_def del: to_limbs.simps)
  have top: "digits zq ! k = L ! k"
    unfolding dq by (simp add: nth_append lenL)
  have sq: "size_zz zq = Suc k" by (simp add: zq_def)
  have lq: "length (digits zq) = length (digits (zz_resize (Suc k) z0))"
    using r(3) unfolding dq by (simp add: lenL)
  have small: "x < 2 ^ (64 * k)" if "L ! k = 0"
  proof (rule ccontr)
    assume "\<not> x < 2 ^ (64 * k)"
    then have "2 ^ (64 * (Suc k - 1)) \<le> x" by simp
    from to_limbs_top_nonzero [OF _ this hi] that show False
      by (simp add: L_def del: to_limbs.simps)
  qed
  show "alloc zt = length (digits zt)" using r(1) lq by (simp add: zt_def zq_def)
  show "size_zz zt \<le> length (digits zt)" using r(3) lq sq by (simp add: zt_def)
  show "size_zz zt \<le> Suc k" using sq by (simp add: zt_def)
  show "negative zt = b" by (simp add: zt_def zq_def)
  show "zz_mag zt = x"
  proof (cases "L ! k = 0")
    case True
    have "take k (digits zq) = to_limbs k x"
      unfolding dq using tkL by (simp add: lenL)
    then show ?thesis
      using True top sq small [OF True] by (simp add: zt_def zz_mag_def limbs_val_to_limbs)
  next
    case False
    have "take (Suc k) (digits zq) = L"
      unfolding dq by (simp add: lenL)
    then show ?thesis
      using False top sq hi
      by (simp add: zt_def zz_mag_def limbs_val_to_limbs L_def del: to_limbs.simps)
  qed
  show "size_zz zt = 0 \<or> digits zt ! (size_zz zt - 1) \<noteq> 0"
  proof (cases "L ! k = 0")
    case False
    then show ?thesis using top sq by (simp add: zt_def)
  next
    case True
    show ?thesis
    proof (cases "k = 0")
      case k0: True
      then show ?thesis using True top sq by (simp add: zt_def)
    next
      case False
      then have lo': "2 ^ (64 * (k - 1)) \<le> x" using lo by simp
      have "k - 1 < length L" by (simp add: lenL)
      then have "digits zq ! (k - 1) = L ! (k - 1)"
        unfolding dq by (simp only: nth_append if_True)
      also have "\<dots> = take k L ! (k - 1)"
        using False by simp
      also have "\<dots> = to_limbs k x ! (k - 1)"
        by (simp only: tkL)
      finally have "digits zq ! (k - 1) = to_limbs k x ! (k - 1)" .
      moreover have "to_limbs k x ! (k - 1) \<noteq> 0"
        using False lo' small [OF True] by (intro to_limbs_top_nonzero) auto
      ultimately show ?thesis using True top sq by (simp add: zt_def)
    qed
  qed
qed

lemma list_update_swap3: "q \<noteq> r \<Longrightarrow> s[q := a, r := b, q := c] = s[q := c, r := b]"
  by (metis list_update_overwrite list_update_swap)

lemma zz_div_tdiv_spec:
  assumes u: "u < length s" and v: "v < length s" and q: "q < length s" and r: "r < length s"
    and ne: "u \<noteq> q" "u \<noteq> r" "v \<noteq> q" "v \<noteq> r" "q \<noteq> r"
    and cu: "canonical (s ! u)" and cv: "canonical (s ! v)"
    and wq: "alloc (s ! q) = length (digits (s ! q))"
    and wr: "alloc (s ! r) = length (digits (s ! r))"
    and vnz: "size_zz (s ! v) \<noteq> 0" and sz: "size_zz (s ! v) \<le> size_zz (s ! u)"
  shows "\<exists>zq zr. zz_div_tdiv s u v q r = s[q := zq, r := zr]
     \<and> alloc zq = length (digits zq) \<and> size_zz zq \<le> length (digits zq)
     \<and> size_zz zq \<le> size_zz (s ! u)
     \<and> zz_mag zq = zz_mag (s ! u) div zz_mag (s ! v)
     \<and> negative zq = (negative (s ! u) \<noteq> negative (s ! v))
     \<and> (size_zz zq = 0 \<or> digits zq ! (size_zz zq - 1) \<noteq> 0)
     \<and> canonical zr \<and> zz_mag zr = zz_mag (s ! u) mod zz_mag (s ! v)
     \<and> negative zr = (negative (s ! v) \<and> zz_mag (s ! u) mod zz_mag (s ! v) \<noteq> 0)
     \<and> size_zz (s ! v) \<le> length (digits zr)
     \<and> take (size_zz (s ! v)) (digits zr)
         = to_limbs (size_zz (s ! v)) (zz_mag (s ! u) mod zz_mag (s ! v))"
proof -
  define n where "n = size_zz (s ! u)"
  define m where "m = size_zz (s ! v)"
  define N where "N = zz_mag (s ! u)"
  define D where "D = zz_mag (s ! v)"
  define k where "k = n - m"
  have szs: "size_zz (s ! u) = n" "size_zz (s ! v) = m" by (simp_all add: n_def m_def)
  have m0: "0 < m" and mn: "m \<le> n" using vnz sz by (simp_all add: n_def m_def)
  have lu: "n \<le> length (digits (s ! u))" using cu by (simp add: canonical_def n_def)
  have lv: "m \<le> length (digits (s ! v))" using cv by (simp add: canonical_def m_def)
  have ND: "limbs_val (take n (digits (s ! u))) = N" "limbs_val (take m (digits (s ! v))) = D"
    by (simp_all add: N_def D_def zz_mag_def n_def m_def)
  have Nlt: "N < 2 ^ (64 * n)" using zz_mag_lt [of "s ! u"] lu by (simp add: N_def n_def)
  have Dlt: "D < 2 ^ (64 * m)" using zz_mag_lt [of "s ! v"] lv by (simp add: D_def m_def)
  have Dlo: "2 ^ (64 * (m - 1)) \<le> D"
    using canonical_mag_lower [OF cv] m0 by (simp add: D_def m_def)
  have Dpos: "0 < D"
  proof -
    have "(0::nat) < 2 ^ (64 * (m - 1))" by simp
    with Dlo show ?thesis by linarith
  qed
  have hi: "N div D < 2 ^ (64 * Suc k)"
    using div_bounds [OF m0 mn Nlt Dlo] by (simp add: k_def)
  have lo: "k = 0 \<or> 2 ^ (64 * (k - 1)) \<le> N div D"
  proof (cases "k = 0")
    case False
    then have "m < n" by (simp add: k_def)
    moreover have "2 ^ (64 * (n - 1)) \<le> N"
      using canonical_mag_lower [OF cu] m0 mn by (simp add: N_def n_def)
    ultimately show ?thesis using div_lower [OF _ _ Dlt Dpos] by (simp add: k_def)
  qed simp
  define b where "b = (negative (s ! u) \<noteq> negative (s ! v))"
  define zq where "zq = (zz_resize (Suc k) (s ! q))\<lparr>negative := b,
      digits := write_limbs (to_limbs (Suc k) (N div D)) (digits (zz_resize (Suc k) (s ! q)))\<rparr>"
  define zt where "zt = zq\<lparr>size_zz := size_zz zq - (if digits zq ! (size_zz zq - 1) = 0 then 1 else 0)\<rparr>"
  define zr where "zr = (zz_resize m (s ! r))\<lparr>negative := negative (s ! v),
      digits := write_limbs (to_limbs m (N mod D)) (digits (zz_resize m (s ! r)))\<rparr>"
  note t = trim_top_object [OF wq hi lo, of b, folded zq_def, folded zt_def]
  note o = output_object [OF wr length_to_limbs, of m "N mod D" "negative (s ! v)", folded zr_def]
  have szr: "size_zz zr \<le> length (digits zr)"
    using zz_resize_wf(3) [OF wr, of m] by (simp add: zr_def write_limbs_def)
  note nr = zz_normalize_canonical [OF o(1) szr]
  have Rlt: "N mod D < 2 ^ (64 * m)"
  proof -
    have "N mod D < D" using Dpos by simp
    with Dlt show ?thesis by simp
  qed
  have magr: "zz_mag zr = N mod D"
    using o(4) Rlt by (simp add: limbs_val_to_limbs)
  have eq: "zz_div_tdiv s u v q r = s[q := zt, r := zz_normalize zr]"
    unfolding zz_div_tdiv_def zt_def zq_def zr_def b_def k_def
    using u v q r ne lu lv m0 mn
    by (simp add: Let_def case_prod_beta mpn_tdiv_qr_def szs ND list_update_swap3
        del: to_limbs.simps split del: if_split)
  have "size_zz zt \<le> n" using t(3) m0 mn by (simp add: k_def)
  moreover have "m \<le> length (digits (zz_normalize zr))"
    using zz_resize_wf(3) [OF wr, of m] by (simp add: nr(4)) (simp add: zr_def write_limbs_def)
  moreover have "take m (digits (zz_normalize zr)) = to_limbs m (N mod D)"
    by (simp add: nr(4)) (simp add: zr_def)
  ultimately show ?thesis
    unfolding szs N_def [symmetric] D_def [symmetric]
    using eq t nr magr o(5)
    by (intro exI [of _ zt] exI [of _ "zz_normalize zr"]) (simp add: b_def)
qed

text \<open>Floored division of signed magnitudes, from the truncated quotient and remainder.\<close>

lemma floor_divmod_same:
  fixes N D :: nat
  assumes "0 < D"
  shows "signed_mag b N div signed_mag b D = int (N div D)"
    and "signed_mag b N mod signed_mag b D = signed_mag b (N mod D)"
proof -
  have e: "int N = int D * int (N div D) + int (N mod D)"
    by (metis of_nat_add of_nat_mult mult_div_mod_eq)
  have lt: "int (N mod D) < int D" using assms by simp
  show "signed_mag b N div signed_mag b D = int (N div D)"
  proof (cases b)
    case True
    have "- int N = - int D * int (N div D) + - int (N mod D)" using e by simp
    from int_div_neg_eq [OF this] lt show ?thesis using True by (simp add: signed_mag_def)
  next
    case False
    from int_div_pos_eq [OF e] lt show ?thesis using False by (simp add: signed_mag_def)
  qed
  show "signed_mag b N mod signed_mag b D = signed_mag b (N mod D)"
  proof (cases b)
    case True
    have "- int N = - int D * int (N div D) + - int (N mod D)" using e by simp
    from int_mod_neg_eq [OF this] lt show ?thesis using True by (simp add: signed_mag_def)
  next
    case False
    from int_mod_pos_eq [OF e] lt show ?thesis using False by (simp add: signed_mag_def)
  qed
qed

lemma floor_divmod_diff_exact:
  fixes N D :: nat
  assumes "0 < D" and "N mod D = 0"
  shows "signed_mag (\<not> b) N div signed_mag b D = - int (N div D)"
    and "signed_mag (\<not> b) N mod signed_mag b D = 0"
proof -
  have e: "int N = int D * int (N div D)"
    using assms(2) by (metis add.right_neutral of_nat_mult mult_div_mod_eq)
  have e1: "int N = - int D * (- int (N div D)) + 0" using e by simp
  have e2: "- int N = int D * (- int (N div D)) + 0" using e by simp
  have Dp: "0 < int D" using assms(1) by simp
  show "signed_mag (\<not> b) N div signed_mag b D = - int (N div D)"
  proof (cases b)
    case True
    from int_div_neg_eq [OF e1] Dp show ?thesis using True by (simp add: signed_mag_def)
  next
    case False
    from int_div_pos_eq [OF e2] Dp show ?thesis using False by (simp add: signed_mag_def)
  qed
  show "signed_mag (\<not> b) N mod signed_mag b D = 0"
    by (cases b) (simp_all add: signed_mag_def e)
qed

lemma floor_divmod_diff:
  fixes N D :: nat
  assumes "0 < D" and "N mod D \<noteq> 0"
  shows "signed_mag (\<not> b) N div signed_mag b D = - int (N div D) - 1"
    and "signed_mag (\<not> b) N mod signed_mag b D = signed_mag b (D - N mod D)"
proof -
  have e: "int N = int D * int (N div D) + int (N mod D)"
    by (metis of_nat_add of_nat_mult mult_div_mod_eq)
  have lt: "N mod D < D" using assms(1) by simp
  have r: "int (D - N mod D) = int D - int (N mod D)" using lt by simp
  have pos: "0 < int (D - N mod D)" "int (D - N mod D) < int D"
    using lt assms(2) by simp_all
  have e1: "- int N = int D * (- int (N div D) - 1) + int (D - N mod D)"
    unfolding r using e by (simp add: algebra_simps)
  have e2: "int N = - int D * (- int (N div D) - 1) + - int (D - N mod D)"
    unfolding r using e by (simp add: algebra_simps)
  show "signed_mag (\<not> b) N div signed_mag b D = - int (N div D) - 1"
  proof (cases b)
    case True
    from int_div_neg_eq [OF e2] pos show ?thesis using True by (simp add: signed_mag_def)
  next
    case False
    from int_div_pos_eq [OF e1] pos show ?thesis using False by (simp add: signed_mag_def)
  qed
  show "signed_mag (\<not> b) N mod signed_mag b D = signed_mag b (D - N mod D)"
  proof (cases b)
    case True
    from int_mod_neg_eq [OF e2] pos show ?thesis using True by (simp add: signed_mag_def)
  next
    case False
    from int_mod_pos_eq [OF e1] pos show ?thesis using False by (simp add: signed_mag_def)
  qed
qed


text \<open>The step from the truncated to the floored quotient.\<close>

lemma zz_div_adjust_skip:
  "\<not> (negative (S ! q) \<and> size_zz (S ! r) \<noteq> 0) \<Longrightarrow> zz_div_adjust S v q r = (ZZ_OK, S)"
  by (cases "negative (S ! q)") (simp_all add: zz_div_adjust_def)

lemma zz_div_adjust_step:
  assumes v: "v < length S" and q: "q < length S" and r: "r < length S"
    and ne: "v \<noteq> q" "v \<noteq> r" "q \<noteq> r"
    and cv: "canonical (S ! v)"
    and wq: "alloc (S ! q) = length (digits (S ! q))"
    and sq: "size_zz (S ! q) \<le> length (digits (S ! q))"
    and nb: "size_zz (S ! q) \<noteq> ZZ_DIGITS_MAX"
    and cr: "canonical (S ! r)"
    and Rlt: "zz_mag (S ! r) < zz_mag (S ! v)"
    and lr: "size_zz (S ! v) \<le> length (digits (S ! r))"
    and tr: "take (size_zz (S ! v)) (digits (S ! r)) = to_limbs (size_zz (S ! v)) (zz_mag (S ! r))"
    and neg: "negative (S ! q)" and rnz: "size_zz (S ! r) \<noteq> 0"
  shows "\<exists>zq zr. zz_div_adjust S v q r = (ZZ_OK, S[q := zq, r := zr])
     \<and> canonical zq \<and> zz_val zq = - int (zz_mag (S ! q)) - 1
     \<and> canonical zr \<and> zz_mag zr = zz_mag (S ! v) - zz_mag (S ! r)
     \<and> negative zr = negative (S ! r)"
proof -
  define m where "m = size_zz (S ! v)"
  define D where "D = zz_mag (S ! v)"
  define R where "R = zz_mag (S ! r)"
  have szs: "size_zz (S ! v) = m" by (simp add: m_def)
  from zz_sub_i64_one [OF q wq sq neg nb] obtain z where
    z: "zz_sub_i64 S q 1 q = (ZZ_OK, S[q := z])" "canonical z"
       "zz_val z = - int (zz_mag (S ! q)) - 1"
    by blast
  have lv: "m \<le> length (digits (S ! v))" using cv by (simp add: canonical_def m_def)
  have Dlt: "D < 2 ^ (64 * m)" using zz_mag_lt [of "S ! v"] lv by (simp add: D_def m_def)
  have RD: "R < D" using Rlt by (simp add: R_def D_def)
  have vD: "limbs_val (take m (digits (S ! v))) = D" by (simp add: D_def zz_mag_def m_def)
  have rR: "limbs_val (take m (digits (S ! r))) = R"
    using tr RD Dlt by (simp add: szs R_def [symmetric] limbs_val_to_limbs)
  define zr where "zr = (S ! r)\<lparr>size_zz := m,
      digits := write_limbs (to_limbs m (D - R)) (digits (S ! r))\<rparr>"
  have wr: "alloc (S ! r) = length (digits (S ! r))" using cr by (simp add: canonical_def)
  have lm: "m \<le> length (digits (S ! r))" using lr by (simp add: m_def)
  have a: "alloc zr = length (digits zr)"
    using wr lm by (simp add: zr_def length_write_limbs max_def)
  have b: "size_zz zr \<le> length (digits zr)"
    using lm by (simp add: zr_def length_write_limbs max_def)
  have mag: "zz_mag zr = D - R"
    using Dlt by (simp add: zr_def zz_mag_def limbs_val_to_limbs)
  note nr = zz_normalize_canonical [OF a b]
  have eq: "zz_div_adjust S v q r = (ZZ_OK, S[q := z, r := zz_normalize zr])"
    unfolding zz_div_adjust_def zr_def
    using v q r ne neg rnz lv RD
    by (simp add: z(1) Let_def case_prod_beta szs vD rR snd_mpn_sub_n
        del: to_limbs.simps split del: if_split)
  have "negative (zz_normalize zr) = negative (S ! r)"
    using nr(3) mag RD by (simp add: zr_def)
  then show ?thesis
    using eq z(2,3) nr(1,2) mag
    by (intro exI [of _ z] exI [of _ "zz_normalize zr"]) (simp add: D_def R_def)
qed


lemma signed_mag_zero [simp]: "signed_mag b 0 = 0"
  by (simp add: signed_mag_def)

text \<open>The general case of \<^verbatim>\<open>zz_div\<close>: four distinct objects, the dividend at least as long
  as the divisor.\<close>

lemma zz_div_kernel_spec:
  assumes u: "u < length s" and v: "v < length s" and q: "q < length s" and r: "r < length s"
    and ne: "u \<noteq> q" "u \<noteq> r" "v \<noteq> q" "v \<noteq> r" "q \<noteq> r"
    and cu: "canonical (s ! u)" and cv: "canonical (s ! v)"
    and wq: "alloc (s ! q) = length (digits (s ! q))"
    and wr: "alloc (s ! r) = length (digits (s ! r))"
    and vnz: "size_zz (s ! v) \<noteq> 0" and sz: "size_zz (s ! v) \<le> size_zz (s ! u)"
    and nb: "size_zz (s ! u) < ZZ_DIGITS_MAX"
  shows "\<exists>zq zr. zz_div_kernel s u v q r = (ZZ_OK, s[q := zq, r := zr])
     \<and> canonical zq \<and> canonical zr
     \<and> zz_val zq = zz_val (s ! u) div zz_val (s ! v)
     \<and> zz_val zr = zz_val (s ! u) mod zz_val (s ! v)"
proof -
  define N where "N = zz_mag (s ! u)"
  define D where "D = zz_mag (s ! v)"
  define bu where "bu = negative (s ! u)"
  define bv where "bv = negative (s ! v)"
  from zz_div_tdiv_spec [OF u v q r ne cu cv wq wr vnz sz] obtain zq0 zr0 where
    t: "zz_div_tdiv s u v q r = s[q := zq0, r := zr0]"
       "alloc zq0 = length (digits zq0)" "size_zz zq0 \<le> length (digits zq0)"
       "size_zz zq0 \<le> size_zz (s ! u)"
       "zz_mag zq0 = N div D" "negative zq0 = (bu \<noteq> bv)"
       "size_zz zq0 = 0 \<or> digits zq0 ! (size_zz zq0 - 1) \<noteq> 0"
       "canonical zr0" "zz_mag zr0 = N mod D" "negative zr0 = (bv \<and> N mod D \<noteq> 0)"
       "size_zz (s ! v) \<le> length (digits zr0)"
       "take (size_zz (s ! v)) (digits zr0) = to_limbs (size_zz (s ! v)) (N mod D)"
    unfolding N_def D_def bu_def bv_def by blast
  define S where "S = s[q := zq0, r := zr0]"
  have Sv: "S ! v = s ! v" and Sq: "S ! q = zq0" and Sr: "S ! r = zr0"
    using ne q r by (simp_all add: S_def)
  have lS: "length S = length s" by (simp add: S_def)
  have Dpos: "0 < D"
    using canonical_mag_zero_iff [OF cv] vnz by (simp add: D_def)
  have Npos: "0 < N"
    using canonical_mag_zero_iff [OF cu] vnz sz by (simp add: N_def)
  have U: "zz_val (s ! u) = signed_mag bu N" and V: "zz_val (s ! v) = signed_mag bv D"
    by (simp_all add: zz_val_signed_mag bu_def bv_def N_def D_def)
  have r0: "size_zz zr0 = 0 \<longleftrightarrow> N mod D = 0"
    using canonical_mag_zero_iff [OF t(8)] t(9) by simp
  have k: "zz_div_kernel s u v q r = zz_div_adjust S v q r"
    by (simp add: zz_div_kernel_def t(1) S_def)
  show ?thesis
  proof (cases "bu \<noteq> bv \<and> N mod D \<noteq> 0")
    case True
    then have bub: "bu = (\<not> bv)" by auto
    have "size_zz zq0 \<noteq> ZZ_DIGITS_MAX" using t(4) nb by simp
    moreover have "zz_mag zr0 < zz_mag (s ! v)" using t(9) Dpos by (simp add: D_def)
    ultimately obtain zq zr where
      a: "zz_div_adjust S v q r = (ZZ_OK, S[q := zq, r := zr])"
         "canonical zq" "zz_val zq = - int (zz_mag (S ! q)) - 1"
         "canonical zr" "zz_mag zr = zz_mag (S ! v) - zz_mag (S ! r)"
         "negative zr = negative (S ! r)"
      using zz_div_adjust_step [of v S q r] v q r ne cv t True r0
      by (simp only: lS Sv Sq Sr) blast
    have upd: "S[q := zq, r := zr] = s[q := zq, r := zr]"
      using ne(5) unfolding S_def by (metis list_update_overwrite list_update_swap)
    have "zz_val zq = signed_mag bu N div signed_mag bv D"
      using a(3) True floor_divmod_diff(1) [OF Dpos, of N bv]
      by (simp add: Sq t(5) bub)
    moreover have "zz_val zr = signed_mag bu N mod signed_mag bv D"
      using a(5,6) True floor_divmod_diff(2) [OF Dpos, of N bv]
      by (simp add: Sv Sr t(9,10) bub zz_val_signed_mag D_def [symmetric])
    ultimately show ?thesis
      using a(1,2,4) by (intro exI [of _ zq] exI [of _ zr]) (simp add: k upd U V)
  next
    case False
    then have skip: "\<not> (negative (S ! q) \<and> size_zz (S ! r) \<noteq> 0)"
      by (auto simp: Sq Sr t(6) r0)
    have res: "zz_div_kernel s u v q r = (ZZ_OK, s[q := zq0, r := zr0])"
      using zz_div_adjust_skip [OF skip] by (simp add: k S_def)
    have Qnz: "N div D \<noteq> 0" if "N mod D = 0"
    proof
      assume "N div D = 0"
      then have "N = 0" using that by (metis mult_div_mod_eq add.right_neutral mult_zero_right)
      with Npos show False by simp
    qed
    have cq: "canonical zq0"
    proof -
      have "\<not> negative zq0" if "size_zz zq0 = 0"
      proof -
        have "zz_mag zq0 = 0" using that by (simp add: zz_mag_def)
        then have "N div D = 0" by (simp add: t(5))
        then have "N mod D \<noteq> 0" using Qnz by blast
        with False show ?thesis by (simp add: t(6))
      qed
      then show ?thesis using t(2,3,7) by (auto simp: canonical_def)
    qed
    have vals: "zz_val zq0 = signed_mag bu N div signed_mag bv D
        \<and> zz_val zr0 = signed_mag bu N mod signed_mag bv D"
    proof (cases "bu = bv")
      case True
      then show ?thesis
        using floor_divmod_same [OF Dpos, of bv N]
        by (cases "N mod D = 0") (simp_all add: zz_val_signed_mag t(5,6,9,10) signed_mag_def)
    next
      case ne: False
      then have z: "N mod D = 0" and bub: "bu = (\<not> bv)" using False by auto
      show ?thesis
        using floor_divmod_diff_exact [OF Dpos z, of bv] ne
        by (simp add: zz_val_signed_mag t(5,6,9,10) z bub signed_mag_def)
    qed
    show ?thesis
      using res cq t(8) vals by (intro exI [of _ zq0] exI [of _ zr0]) (simp add: U V)
  qed
qed


text \<open>Adding operands of opposite signs never overflows.\<close>

lemma zz_add_opposite_spec:
  assumes u: "u < length s" and v: "v < length s" and w: "w < length s"
    and cu: "canonical (s ! u)" and cv: "canonical (s ! v)" and cw: "alloc (s ! w) = length (digits (s ! w))"
    and opp: "negative (s ! u) \<noteq> negative (s ! v)"
  shows "\<exists>z. zz_add s u v w = (ZZ_OK, s[w := z]) \<and> canonical z
           \<and> zz_val z = zz_val (s ! u) + zz_val (s ! v)"
proof (cases "size_zz (s ! u) < size_zz (s ! v)")
  case True
  then have sz: "size_zz (s ! u) \<le> size_zz (s ! v)" by simp
  have nb: "\<not> (negative (s ! v) = negative (s ! u) \<and> size_zz (s ! v) = ZZ_DIGITS_MAX)"
    using opp by simp
  from zz_addsub_swapped_spec [OF v u w cv cu cw sz nb]
  show ?thesis
    using True by (simp add: zz_add_def zz_addsub_def Let_def zz_val_signed_mag eq_commute add.commute)
next
  case False
  then have sz: "size_zz (s ! v) \<le> size_zz (s ! u)" by simp
  have nb: "\<not> (negative (s ! u) = negative (s ! v) \<and> size_zz (s ! u) = ZZ_DIGITS_MAX)"
    using opp by simp
  from zz_addsub_swapped_spec [OF u v w cu cv cw sz nb]
  show ?thesis
    using False by (simp add: zz_add_def zz_addsub_def Let_def zz_val_signed_mag)
qed

text \<open>The branch for a dividend with fewer digits than the divisor.  The quotient is written
  first, so \<open>q\<close> must not be the dividend, nor the divisor when the sum is taken.\<close>

lemma zz_div_short_spec:
  assumes u: "u < length s" and v: "v < length s" and q: "q < length s" and r: "r < length s"
    and qr: "q \<noteq> r" and qu: "q \<noteq> u"
    and qv: "q = v \<Longrightarrow> negative (s ! u) = negative (s ! v)"
    and cu: "canonical (s ! u)" and cv: "canonical (s ! v)"
    and wq: "alloc (s ! q) = length (digits (s ! q))"
    and wr: "alloc (s ! r) = length (digits (s ! r))"
    and unz: "size_zz (s ! u) \<noteq> 0" and sz: "size_zz (s ! u) < size_zz (s ! v)"
  shows "\<exists>zq zr. zz_div_short s u v q r = (ZZ_OK, s[q := zq, r := zr])
     \<and> canonical zq \<and> canonical zr
     \<and> zz_val zq = zz_val (s ! u) div zz_val (s ! v)
     \<and> zz_val zr = zz_val (s ! u) mod zz_val (s ! v)"
proof -
  define N where "N = zz_mag (s ! u)"
  define D where "D = zz_mag (s ! v)"
  define bu where "bu = negative (s ! u)"
  define bv where "bv = negative (s ! v)"
  have ND: "N < D" using canonical_mag_size_lt [OF cv cu sz] by (simp add: N_def D_def)
  have Npos: "0 < N" using canonical_mag_zero_iff [OF cu] unz by (simp add: N_def)
  have Dpos: "0 < D" using ND by simp
  have dm: "N div D = 0" "N mod D = N" using ND by simp_all
  have U: "zz_val (s ! u) = signed_mag bu N" and V: "zz_val (s ! v) = signed_mag bv D"
    by (simp_all add: zz_val_signed_mag bu_def bv_def N_def D_def)
  show ?thesis
  proof (cases "bu = bv")
    case True
    define s1 where "s1 = s[q := zz_set_i64 0 (s ! q)]"
    have s1u: "s1 ! u = s ! u" using qu by (simp add: s1_def)
    have sh: "zz_div_short s u v q r = (ZZ_OK, snd (zz_pos s1 u r))"
      using True by (simp add: zz_div_short_def bu_def bv_def s1_def)
    have "\<exists>z. snd (zz_pos s1 u r) = s1[r := z] \<and> canonical z \<and> zz_val z = zz_val (s ! u)"
    proof (cases "u = r")
      case eq: True
      have "s1 ! r = s ! u" using eq s1u by simp
      then have "s1[r := s ! u] = s1" by (metis list_update_id)
      then show ?thesis
        using eq cu by (intro exI [of _ "s ! u"]) (simp add: zz_pos_def)
    next
      case ne: False
      have s1: "u < length s1" "r < length s1" "canonical (s1 ! u)"
          "alloc (s1 ! r) = length (digits (s1 ! r))"
        using u r qr cu wr s1u by (simp_all add: s1_def)
      from zz_pos_spec [OF s1(1,2) ne s1(3,4)] show ?thesis
        by (auto simp: s1u)
    qed
    then obtain z where
      z: "snd (zz_pos s1 u r) = s1[r := z]" "canonical z" "zz_val z = zz_val (s ! u)"
      by blast
    have eq: "zz_div_short s u v q r = (ZZ_OK, s[q := zz_set_i64 0 (s ! q), r := z])"
      unfolding sh z(1) by (simp add: s1_def)
    have "zz_val z = signed_mag bu N" using z(3) by (simp add: U)
    then show ?thesis
      using eq z(2) zz_set_i64_0 [OF wq] floor_divmod_same [OF Dpos, of bv N] True dm
      by (intro exI [of _ "zz_set_i64 0 (s ! q)"] exI [of _ z]) (simp add: U V)
  next
    case False
    then have bub: "bu = (\<not> bv)" by auto
    have qv': "q \<noteq> v" using qv False by (auto simp: bu_def bv_def)
    define s1 where "s1 = s[q := zz_set_i64 (- 1) (s ! q)]"
    have s1: "u < length s1" "v < length s1" "r < length s1" "canonical (s1 ! u)"
        "canonical (s1 ! v)" "alloc (s1 ! r) = length (digits (s1 ! r))"
        "negative (s1 ! u) \<noteq> negative (s1 ! v)"
      using u v r qu qv' qr cu cv wr False by (simp_all add: s1_def bu_def bv_def)
    from zz_add_opposite_spec [OF s1] obtain z where
      z: "zz_add s1 u v r = (ZZ_OK, s1[r := z])" "canonical z"
         "zz_val z = zz_val (s1 ! u) + zz_val (s1 ! v)"
      by blast
    have eq: "zz_div_short s u v q r = (ZZ_OK, s[q := zz_set_i64 (- 1) (s ! q), r := z])"
      using False by (simp add: zz_div_short_def bu_def bv_def s1_def [symmetric] z(1))
    have "zz_val z = signed_mag bu N + signed_mag bv D"
      using z(3) qu qv' by (simp add: s1_def U V)
    also have "\<dots> = signed_mag bv (D - N)"
      using ND by (cases bv) (simp_all add: bub signed_mag_def)
    finally have zr: "zz_val z = signed_mag bu N mod signed_mag bv D"
      using floor_divmod_diff(2) [OF Dpos, of N bv] dm Npos by (simp add: bub)
    have "zz_val (zz_set_i64 (- 1) (s ! q)) = signed_mag bu N div signed_mag bv D"
      using floor_divmod_diff(1) [OF Dpos, of N bv] dm Npos zz_set_i64_m1 [OF wq]
      by (simp add: bub)
    then show ?thesis
      using eq z(2) zr zz_set_i64_m1 [OF wq]
      by (intro exI [of _ "zz_set_i64 (- 1) (s ! q)"] exI [of _ z]) (simp add: U V)
  qed
qed

text \<open>The copy of an operand into a fresh object at the end of the store, and its removal.\<close>

lemma zz_pos_tmp:
  assumes u: "u < length s" and cu: "canonical (s ! u)"
  shows "\<exists>z. snd (zz_pos (s @ [zz_init]) u (length s)) = s @ [z] \<and> canonical z
     \<and> zz_val z = zz_val (s ! u) \<and> size_zz z = size_zz (s ! u)"
proof -
  let ?S = "s @ [zz_init]"
  have a: "u < length ?S" "length s < length ?S" "u \<noteq> length s" "canonical (?S ! u)"
      "alloc (?S ! length s) = length (digits (?S ! length s))"
    using u cu by (simp_all add: nth_append zz_init_def)
  from zz_pos_spec [OF a] obtain z where
    z: "zz_pos ?S u (length s) = (ZZ_OK, ?S[length s := z])" "canonical z"
       "zz_val z = zz_val (?S ! u)" "size_zz z = size_zz (?S ! u)"
    by blast
  show ?thesis
    using z u by (intro exI [of _ z]) (simp add: nth_append)
qed

lemma drop_tmp:
  assumes "q < length s" and "r < length s"
  shows "take (length s) ((s @ [a])[q := zq, r := zr, length s := c]) = s[q := zq, r := zr]"
  using assms by (simp add: list_update_append)

lemma drop_tmp_kept:
  assumes "q < length s" and "r < length s"
  shows "take (length s) ((s @ [a])[q := zq, r := zr]) = s[q := zq, r := zr]"
  using assms by (simp add: list_update_append)

text \<open>\<^verbatim>\<open>zz_div\<close> with both outputs given: the choice of the branch.\<close>

lemma zz_div_both:
  "zz_div s u v (Some q) (Some r) =
     (if size_zz (s ! v) = 0 then (ZZ_VAL, s)
      else if size_zz (s ! u) = 0
        then (ZZ_OK, s[q := zz_set_i64 0 (s ! q),
                       r := zz_set_i64 0 (s[q := zz_set_i64 0 (s ! q)] ! r)])
      else if size_zz (s ! u) < size_zz (s ! v) then zz_div_short s u v q r
      else if u = q \<or> u = r then
        (let res = zz_div (snd (zz_pos (s @ [zz_init]) u (length s))) (length s) v
                     (Some q) (Some r)
         in (fst res, take (length s) ((snd res)[length s := zz_clear (snd res ! length s)])))
      else if v = q \<or> v = r then
        (let res = zz_div (snd (zz_pos (s @ [zz_init]) v (length s))) u (length s)
                     (Some q) (Some r)
         in (fst res, take (length s) ((snd res)[length s := zz_clear (snd res ! length s)])))
      else zz_div_kernel s u v q r)"
  using zz_div.simps [of s u v "Some q" "Some r"]
  by (simp add: Let_def case_prod_beta)

text \<open>The dividend at least as long as the divisor, and not one of the outputs.\<close>

lemma zz_div_long_spec:
  assumes u: "u < length s" and v: "v < length s" and q: "q < length s" and r: "r < length s"
    and ne: "u \<noteq> q" "u \<noteq> r" "q \<noteq> r"
    and cu: "canonical (s ! u)" and cv: "canonical (s ! v)"
    and wq: "alloc (s ! q) = length (digits (s ! q))"
    and wr: "alloc (s ! r) = length (digits (s ! r))"
    and vnz: "size_zz (s ! v) \<noteq> 0" and sz: "size_zz (s ! v) \<le> size_zz (s ! u)"
    and nb: "size_zz (s ! u) < ZZ_DIGITS_MAX"
  shows "\<exists>zq zr. zz_div s u v (Some q) (Some r) = (ZZ_OK, s[q := zq, r := zr])
     \<and> canonical zq \<and> canonical zr
     \<and> zz_val zq = zz_val (s ! u) div zz_val (s ! v)
     \<and> zz_val zr = zz_val (s ! u) mod zz_val (s ! v)"
proof (cases "v = q \<or> v = r")
  case False
  then have nv: "v \<noteq> q" "v \<noteq> r" by auto
  have d: "zz_div s u v (Some q) (Some r) = zz_div_kernel s u v q r"
    using vnz sz ne nv by (simp add: zz_div_both)
  from zz_div_kernel_spec [OF u v q r ne(1,2) nv ne(3) cu cv wq wr vnz sz nb] show ?thesis
    by (simp only: d)
next
  case True
  from zz_pos_tmp [OF v cv] obtain zv where
    zv: "snd (zz_pos (s @ [zz_init]) v (length s)) = s @ [zv]" "canonical zv"
        "zz_val zv = zz_val (s ! v)" "size_zz zv = size_zz (s ! v)"
    by blast
  let ?S = "s @ [zv]"
  let ?t = "length s"
  have S: "u < length ?S" "?t < length ?S" "q < length ?S" "r < length ?S"
      "u \<noteq> q" "u \<noteq> r" "?t \<noteq> q" "?t \<noteq> r" "q \<noteq> r"
      "canonical (?S ! u)" "canonical (?S ! ?t)"
      "alloc (?S ! q) = length (digits (?S ! q))" "alloc (?S ! r) = length (digits (?S ! r))"
      "size_zz (?S ! ?t) \<noteq> 0" "size_zz (?S ! ?t) \<le> size_zz (?S ! u)"
      "size_zz (?S ! u) < ZZ_DIGITS_MAX"
    using u q r ne cu zv(2,4) wq wr vnz sz nb by (simp_all add: nth_append)
  from zz_div_kernel_spec [OF S] obtain zq zr where
    k: "zz_div_kernel ?S u ?t q r = (ZZ_OK, ?S[q := zq, r := zr])"
       "canonical zq" "canonical zr"
       "zz_val zq = zz_val (?S ! u) div zz_val (?S ! ?t)"
       "zz_val zr = zz_val (?S ! u) mod zz_val (?S ! ?t)"
    by blast
  have inner: "zz_div ?S u ?t (Some q) (Some r) = (ZZ_OK, ?S[q := zq, r := zr])"
    using S(5-8,14,15) k(1) by (simp add: zz_div_both)
  have d: "zz_div s u v (Some q) (Some r) = (ZZ_OK, s[q := zq, r := zr])"
    using vnz sz ne True q r
    by (simp add: zz_div_both [of s u v q r] zv(1) inner drop_tmp drop_tmp_kept)
  show ?thesis
    using d k(2-5) u zv(3) by (intro exI [of _ zq] exI [of _ zr]) (simp add: nth_append)
qed

text \<open>\<^verbatim>\<open>zz_div\<close> with both outputs given; each of them may be one of the operands.\<close>

lemma zz_div_spec:
  assumes u: "u < length s" and v: "v < length s" and q: "q < length s" and r: "r < length s"
    and qr: "q \<noteq> r"
    and cu: "canonical (s ! u)" and cv: "canonical (s ! v)"
    and wq: "alloc (s ! q) = length (digits (s ! q))"
    and wr: "alloc (s ! r) = length (digits (s ! r))"
    and vnz: "size_zz (s ! v) \<noteq> 0"
    and nb: "size_zz (s ! u) < ZZ_DIGITS_MAX"
    and short: "size_zz (s ! u) \<noteq> 0 \<Longrightarrow> size_zz (s ! u) < size_zz (s ! v) \<Longrightarrow>
        q \<noteq> u \<and> (q = v \<longrightarrow> negative (s ! u) = negative (s ! v))"
  shows "\<exists>zq zr. zz_div s u v (Some q) (Some r) = (ZZ_OK, s[q := zq, r := zr])
     \<and> canonical zq \<and> canonical zr
     \<and> zz_val zq = zz_val (s ! u) div zz_val (s ! v)
     \<and> zz_val zr = zz_val (s ! u) mod zz_val (s ! v)"
proof -
  consider (zero) "size_zz (s ! u) = 0"
    | (short) "size_zz (s ! u) \<noteq> 0" "size_zz (s ! u) < size_zz (s ! v)"
    | (long) "size_zz (s ! u) \<noteq> 0" "size_zz (s ! v) \<le> size_zz (s ! u)"
    by linarith
  then show ?thesis
  proof cases
    case zero
    then have "zz_val (s ! u) = 0" using cu by (simp add: canonical_val_zero_iff)
    then show ?thesis
      using zero vnz qr q zz_set_i64_0 [OF wq] zz_set_i64_0 [OF wr]
      by (intro exI [of _ "zz_set_i64 0 (s ! q)"] exI [of _ "zz_set_i64 0 (s ! r)"])
         (simp add: zz_div_both)
  next
    case short
    have qu: "q \<noteq> u" and qv: "q = v \<Longrightarrow> negative (s ! u) = negative (s ! v)"
      using assms(12) [OF short] by auto
    from zz_div_short_spec [OF u v q r qr qu qv cu cv wq wr short] show ?thesis
      using short vnz by (simp add: zz_div_both)
  next
    case long
    show ?thesis
    proof (cases "u = q \<or> u = r")
      case False
      then have "u \<noteq> q" "u \<noteq> r" by auto
      from zz_div_long_spec [OF u v q r this qr cu cv wq wr vnz long(2) nb] show ?thesis .
    next
      case True
      from zz_pos_tmp [OF u cu] obtain zu where
        zu: "snd (zz_pos (s @ [zz_init]) u (length s)) = s @ [zu]" "canonical zu"
            "zz_val zu = zz_val (s ! u)" "size_zz zu = size_zz (s ! u)"
        by blast
      let ?S = "s @ [zu]"
      let ?t = "length s"
      have S: "?t < length ?S" "v < length ?S" "q < length ?S" "r < length ?S"
          "?t \<noteq> q" "?t \<noteq> r" "q \<noteq> r"
          "canonical (?S ! ?t)" "canonical (?S ! v)"
          "alloc (?S ! q) = length (digits (?S ! q))"
          "alloc (?S ! r) = length (digits (?S ! r))"
          "size_zz (?S ! v) \<noteq> 0" "size_zz (?S ! v) \<le> size_zz (?S ! ?t)"
          "size_zz (?S ! ?t) < ZZ_DIGITS_MAX"
        using v q r qr cv zu(2,4) wq wr vnz long(2) nb by (simp_all add: nth_append)
      from zz_div_long_spec [OF S] obtain zq zr where
        k: "zz_div ?S ?t v (Some q) (Some r) = (ZZ_OK, ?S[q := zq, r := zr])"
           "canonical zq" "canonical zr"
           "zz_val zq = zz_val (?S ! ?t) div zz_val (?S ! v)"
           "zz_val zr = zz_val (?S ! ?t) mod zz_val (?S ! v)"
        by blast
      have d: "zz_div s u v (Some q) (Some r) = (ZZ_OK, s[q := zq, r := zr])"
        using vnz long True q r
        by (simp add: zz_div_both [of s u v q r] zu(1) k(1) drop_tmp drop_tmp_kept)
      show ?thesis
        using d k(2-5) v zu(3) by (intro exI [of _ zq] exI [of _ zr]) (simp add: nth_append)
    qed
  qed
qed



section \<open>Shifting right: correctness\<close>

lemma quo_carry_scan_iff: "quo_carry_scan ds \<longleftrightarrow> limbs_val ds \<noteq> 0"
  by (induction ds) (auto simp: unat_eq_0)

lemma limbs_val_le: "limbs_val ds \<le> 2 ^ (64 * length ds) - 1"
  using limbs_val_lt [of ds] by simp

lemma unat_max_iff: "unat (d :: 64 word) = 2 ^ 64 - 1 \<longleftrightarrow> d = - 1"
proof -
  have m: "unat (- 1 :: 64 word) = 2 ^ 64 - 1"
    by (simp add: unsigned_minus_1_eq_mask mask_eq_exp_minus_1)
  show ?thesis
  proof
    assume "unat d = 2 ^ 64 - 1"
    then have "unat d = unat (- 1 :: 64 word)" by (simp only: m)
    then show "d = - 1" by (simp only: word_unat_eq_iff)
  next
    assume "d = - 1"
    then show "unat d = 2 ^ 64 - 1" by (simp only: m)
  qed
qed

lemma quo_extra_scan_iff: "quo_extra_scan ds \<longleftrightarrow> limbs_val ds = 2 ^ (64 * length ds) - 1"
proof (induction ds)
  case Nil
  show ?case by simp
next
  case (Cons d ds)
  let ?K = "(2::nat) ^ (64 * length ds)"
  have p: "(2::nat) ^ (64 * length (d # ds)) = 2 ^ 64 * ?K" by (simp add: power_add)
  have "unat d < 2 ^ 64" using unsigned_less [of d, where ?'a = nat] by simp
  then have dl: "unat d \<le> 2 ^ 64 - 1" by simp
  have ll: "limbs_val ds \<le> ?K - 1" by (rule limbs_val_le)
  have Kp: "0 < ?K" by simp
  have e: "(2::nat) ^ 64 * ?K - 1 = (2 ^ 64 - 1) + 2 ^ 64 * (?K - 1)"
    using Kp by (simp add: algebra_simps)
  have "unat d + 2 ^ 64 * limbs_val ds = 2 ^ 64 * ?K - 1
      \<longleftrightarrow> unat d = 2 ^ 64 - 1 \<and> limbs_val ds = ?K - 1"
  proof
    assume a: "unat d + 2 ^ 64 * limbs_val ds = 2 ^ 64 * ?K - 1"
    have "2 ^ 64 * limbs_val ds \<le> 2 ^ 64 * (?K - 1)" using ll by simp
    with a e dl have "unat d = 2 ^ 64 - 1" "2 ^ 64 * limbs_val ds = 2 ^ 64 * (?K - 1)"
      by linarith+
    then show "unat d = 2 ^ 64 - 1 \<and> limbs_val ds = ?K - 1" by simp
  next
    assume "unat d = 2 ^ 64 - 1 \<and> limbs_val ds = ?K - 1"
    then show "unat d + 2 ^ 64 * limbs_val ds = 2 ^ 64 * ?K - 1" using e by simp
  qed
  then have "limbs_val (d # ds) = 2 ^ (64 * length (d # ds)) - 1
      \<longleftrightarrow> unat d = 2 ^ 64 - 1 \<and> limbs_val ds = ?K - 1"
    by (simp only: p limbs_val.simps)
  also have "\<dots> \<longleftrightarrow> d = - 1 \<and> quo_extra_scan ds"
    by (simp only: unat_max_iff Cons.IH)
  finally show ?case by (auto simp: ZZ_DIGIT_T_MAX_def)
qed

lemma fst_mpn_rshift:
  assumes "0 < c" and "c < 64"
  shows "fst (mpn_rshift sp c) \<noteq> 0 \<longleftrightarrow> limbs_val sp mod 2 ^ c \<noteq> 0"
proof -
  let ?x = "limbs_val sp mod 2 ^ c"
  have "?x < 2 ^ c" by simp
  then have "?x * 2 ^ (64 - c) < 2 ^ c * 2 ^ (64 - c)" by simp
  also have "(2::nat) ^ c * 2 ^ (64 - c) = 2 ^ 64"
    using assms by (simp flip: power_add)
  finally have lt: "?x * 2 ^ (64 - c) < 2 ^ 64" .
  have "(word_of_nat (?x * 2 ^ (64 - c)) :: 64 word) = 0 \<longleftrightarrow> ?x * 2 ^ (64 - c) = 0"
    using lt by (metis unat_word_of_nat_small unat_eq_0 of_nat_0)
  then show ?thesis by (simp add: mpn_rshift_def)
qed

lemma snd_mpn_rshift: "snd (mpn_rshift sp c) = to_limbs (length sp) (limbs_val sp div 2 ^ c)"
  by (simp add: mpn_rshift_def)


lemma floor_shift:
  "signed_mag b A div 2 ^ k
     = signed_mag b (A div 2 ^ k + (if b \<and> A mod 2 ^ k \<noteq> 0 then 1 else 0))"
proof -
  have P: "(0::nat) < 2 ^ k" by simp
  have e: "signed_mag b A div 2 ^ k = signed_mag b A div signed_mag False (2 ^ k)"
    by (simp add: signed_mag_def)
  show ?thesis
  proof (cases b)
    case False
    have "signed_mag False A div signed_mag False (2 ^ k) = int (A div 2 ^ k)"
      by (rule floor_divmod_same(1) [OF P])
    then show ?thesis
      unfolding e using False by (simp add: signed_mag_def)
  next
    case True
    show ?thesis
    proof (cases "A mod 2 ^ k = 0")
      case z: True
      have "signed_mag (\<not> False) A div signed_mag False (2 ^ k) = - int (A div 2 ^ k)"
        by (rule floor_divmod_diff_exact(1) [OF P z])
      then show ?thesis
        unfolding e using True z by (simp add: signed_mag_def)
    next
      case nz: False
      have "signed_mag (\<not> False) A div signed_mag False (2 ^ k) = - int (A div 2 ^ k) - 1"
        by (rule floor_divmod_diff(1) [OF P nz])
      then show ?thesis
        unfolding e using True nz by (simp add: signed_mag_def)
    qed
  qed
qed

lemma take_write_below [simp]:
  "n < length buf \<Longrightarrow>
     take (Suc n) (write_limbs (to_limbs n x) (buf[n := c])) = to_limbs n x @ [c]"
  by (simp add: write_limbs_def take_Suc_conv_app_nth nth_append)

lemma take_update_above [simp]: "take n (buf[n := c]) = take n buf"
  by simp

text \<open>The digits of the operand below and from the digit \<open>w\<close> on.\<close>

lemma limbs_val_split:
  assumes "w \<le> n"
  shows "limbs_val (take n ds)
     = limbs_val (take w ds) + 2 ^ (64 * length (take w ds)) * limbs_val (take (n - w) (drop w ds))"
proof -
  have "take n ds = take w ds @ take (n - w) (drop w ds)"
    using assms by (metis take_add le_add_diff_inverse)
  then show ?thesis by (simp only: limbs_val_append)
qed


lemma zz_set_i32_0: "alloc z = length (digits z) \<Longrightarrow>
    canonical (zz_set_i32 0 z) \<and> zz_val (zz_set_i32 0 z) = 0"
  by (simp add: zz_set_i32_def canonical_def zz_val_def zz_mag_def)

text \<open>The rest of \<^verbatim>\<open>zz_quo_2exp\<close> after the digits \<open>Q\<close> of the truncated quotient are in place.\<close>

lemma zz_quo_2exp_round_spec:
  assumes v: "v < length S"
    and a: "alloc (S ! v) = length (digits (S ! v))"
    and sz: "size_zz (S ! v) = sz + (if ex then 1 else 0)"
    and l: "sz + (if ex then 1 else 0) \<le> length (digits (S ! v))"
    and tk: "take sz (digits (S ! v)) = to_limbs sz Q"
    and Qlt: "Q < 2 ^ (64 * sz)"
    and co: "cr \<and> Suc Q = 2 ^ (64 * sz) \<Longrightarrow> ex"
  shows "\<exists>z. zz_quo_2exp_round S v sz ex cr = S[v := z] \<and> canonical z
       \<and> zz_val z = signed_mag (negative (S ! v)) (Q + (if cr then 1 else 0))"
proof -
  define B where "B = digits (S ! v)"
  have v3: "limbs_val (take sz B) = Q"
    using Qlt by (simp add: B_def tk limbs_val_to_limbs)
  have lB: "sz \<le> length (digits (S ! v))" using l by simp
  have mn: "min (length (digits (S ! v))) sz = sz" using lB by simp
  have SQ: "Suc Q \<le> 2 ^ (64 * sz)" using Qlt by simp
  show ?thesis
  proof (cases cr)
    case False
    show ?thesis
    proof (cases ex)
      case ex: False
      show ?thesis
        unfolding zz_quo_2exp_round_def
        using v False ex
        apply (simp add: Let_def del: to_limbs.simps)
        apply (rule normalize_result [OF v])
        using a sz l v3
        apply (simp_all add: zz_val_signed_mag zz_mag_def B_def)
        done
    next
      case ex: True
      have lB': "sz < length (digits (S ! v))" using l ex by simp
      have "take (Suc sz) (B[sz := 0]) = take sz B @ [0]"
        using lB' by (simp add: take_Suc_conv_app_nth B_def)
      then have m: "limbs_val (take (Suc sz) (B[sz := 0])) = Q"
        by (simp add: limbs_val_append v3)
      show ?thesis
        unfolding zz_quo_2exp_round_def
        using v False ex
        apply (simp add: Let_def del: to_limbs.simps)
        apply (rule normalize_result [OF v])
        using a sz l m
        apply (simp_all add: zz_val_signed_mag zz_mag_def B_def)
        done
    qed
  next
    case True
    show ?thesis
    proof (cases ex)
      case ex: False
      then have "Suc Q \<noteq> 2 ^ (64 * sz)" using co True by blast
      then have lt: "Suc Q < 2 ^ (64 * sz)" using SQ by simp
      then have cy: "Suc Q div 2 ^ (64 * sz) = 0" by simp
      show ?thesis
        unfolding zz_quo_2exp_round_def
        using v True ex lB
        apply (simp add: Let_def case_prod_beta fst_mpn_add_1 snd_mpn_add_1
            v3 [unfolded B_def] cy mn del: to_limbs.simps)
        apply (rule normalize_result [OF v])
        using a sz l lt
        apply (simp_all add: zz_val_signed_mag zz_mag_def length_write_limbs max_def
            limbs_val_to_limbs)
        done
    next
      case ex: True
      have lB': "sz < length (digits (S ! v))" using l ex by simp
      have v3': "limbs_val (take sz (B[sz := 0])) = Q" using v3 by simp
      show ?thesis
      proof (cases "Suc Q = 2 ^ (64 * sz)")
        case eq: True
        have cy: "Suc Q div 2 ^ (64 * sz) = 1" by (simp add: eq)
        have md: "Suc Q mod 2 ^ (64 * sz) = 0" by (simp add: eq)
        show ?thesis
          unfolding zz_quo_2exp_round_def
          using v True ex lB lB'
          apply (simp add: Let_def case_prod_beta fst_mpn_add_1 snd_mpn_add_1
              v3' [unfolded B_def] v3 [unfolded B_def] cy mn del: to_limbs.simps)
          apply (rule normalize_result [OF v])
          using a sz l lB' eq
          apply (simp_all add: zz_val_signed_mag zz_mag_def length_write_limbs max_def
              limbs_val_to_limbs limbs_val_append B_def md del: to_limbs.simps)
          done
      next
        case ne: False
        then have lt: "Suc Q < 2 ^ (64 * sz)" using SQ by simp
        then have cy: "Suc Q div 2 ^ (64 * sz) = 0" by simp
        show ?thesis
          unfolding zz_quo_2exp_round_def
          using v True ex lB lB'
          apply (simp add: Let_def case_prod_beta fst_mpn_add_1 snd_mpn_add_1
              v3' [unfolded B_def] v3 [unfolded B_def] cy mn del: to_limbs.simps)
          apply (rule normalize_result [OF v])
          using a sz l lB' lt
          apply (simp_all add: zz_val_signed_mag zz_mag_def length_write_limbs max_def
              limbs_val_to_limbs limbs_val_append B_def del: to_limbs.simps)
          done
      qed
    qed
  qed
qed


lemma negative_zz_resize: "n \<noteq> 0 \<Longrightarrow> negative (zz_resize n z) = negative z"
  by (simp add: zz_resize_def Let_def)

lemma zz_quo_2exp_spec:
  assumes u: "u < length s" and v: "v < length s"
    and cu: "canonical (s ! u)" and wv: "alloc (s ! v) = length (digits (s ! v))"
    and nb: "size_zz (s ! u) \<le> ZZ_DIGITS_MAX"
  shows "\<exists>z. zz_quo_2exp s u shift v = (ZZ_OK, s[v := z]) \<and> canonical z
           \<and> zz_val z = zz_val (s ! u) div 2 ^ unat shift"
proof -
  define n where "n = size_zz (s ! u)"
  define A where "A = zz_mag (s ! u)"
  define k where "k = unat shift"
  define neg where "neg = negative (s ! u)"
  define ds where "ds = digits (s ! u)"
  have szs: "size_zz (s ! u) = n" by (simp add: n_def)
  have ln: "n \<le> length ds" using cu by (simp add: canonical_def n_def ds_def)
  have Alt: "A < 2 ^ (64 * n)" using zz_mag_lt [of "s ! u"] ln by (simp add: A_def n_def ds_def)
  have U: "zz_val (s ! u) = signed_mag neg A"
    by (simp add: zz_val_signed_mag neg_def A_def)
  have n64: "unat (word_of_nat n * 64 :: 64 word) = n * 64"
  proof -
    have "n * 64 < 2 ^ 64" using nb by (simp add: ZZ_DIGITS_MAX_def n_def)
    then have "unat (word_of_nat (n * 64) :: 64 word) = n * 64"
      by (rule unat_word_of_nat_small)
    then show ?thesis by simp
  qed
  have cmp: "(word_of_nat n * 64 \<le> shift) = (n * 64 \<le> k)"
    by (simp add: word_le_nat_alt n64 k_def)
  show ?thesis
  proof (cases "n = 0")
    case True
    then have "zz_val (s ! u) = 0" using cu by (simp add: canonical_val_zero_iff n_def)
    then show ?thesis
      using True zz_set_i32_0 [OF wv]
      by (intro exI [of _ "zz_set_i32 0 (s ! v)"]) (simp add: zz_quo_2exp_def szs)
  next
    case nz: False
    have Apos: "0 < A" using canonical_mag_zero_iff [OF cu] nz by (simp add: A_def n_def)
    show ?thesis
    proof (cases "n * 64 \<le> k")
      case True
      have "(2::nat) ^ (64 * n) \<le> 2 ^ k" using True by (simp add: power_increasing mult.commute)
      with Alt have Ak: "A < 2 ^ k" by (rule less_le_trans)
      then have dm: "A div 2 ^ k = 0" "A mod 2 ^ k \<noteq> 0" using Apos by simp_all
      have val: "zz_val (s ! u) div 2 ^ k = (if neg then - 1 else 0)"
        unfolding U floor_shift using dm by (simp add: signed_mag_def)
      show ?thesis
      proof (cases neg)
        case True
        then show ?thesis
          using nz \<open>n * 64 \<le> k\<close> zz_set_i64_m1 [OF wv] val
          by (intro exI [of _ "zz_set_i64 (- 1) (s ! v)"])
             (simp add: zz_quo_2exp_def szs cmp neg_def [symmetric] k_def [symmetric])
      next
        case False
        then show ?thesis
          using nz \<open>n * 64 \<le> k\<close> zz_set_i64_0 [OF wv] val
          by (intro exI [of _ "zz_set_i64 0 (s ! v)"])
             (simp add: zz_quo_2exp_def szs cmp neg_def [symmetric] k_def [symmetric])
      qed
    next
      case False
      define w where "w = k div 64"
      define c where "c = k mod 64"
      define sz where "sz = n - w"
      define Hs where "Hs = take sz (drop w ds)"
      define L where "L = limbs_val (take w ds)"
      define H where "H = limbs_val Hs"
      define Q where "Q = A div 2 ^ k"
      define cr where "cr = (neg \<and> A mod 2 ^ k \<noteq> 0)"
      define ex where "ex = (H = 2 ^ (64 * sz) - 1)"
      define e :: nat where "e = (if ex then 1 else 0)"
      define carry where "carry = (if quo_carry_scan (take w ds) then neg else False)"
      have wn: "w < n" using False by (simp add: w_def)
      have sz0: "0 < sz" and szn: "sz + w = n" using wn by (simp_all add: sz_def)
      have c64: "c < 64" by (simp add: c_def)
      have kwc: "k = 64 * w + c" by (simp add: w_def c_def)
      have lH: "length Hs = sz" using ln szn by (simp add: Hs_def)
      have lw: "length (take w ds) = w" using ln wn by simp
      have AL: "A = L + 2 ^ (64 * w) * H"
        using limbs_val_split [of w n ds] wn lw
        by (simp add: A_def zz_mag_def n_def ds_def L_def H_def Hs_def sz_def)
      have Llt: "L < 2 ^ (64 * w)" using limbs_val_lt [of "take w ds"] lw by (simp add: L_def)
      have Hlt: "H < 2 ^ (64 * sz)" using limbs_val_lt [of Hs] lH by (simp add: H_def)
      have AH: "A div 2 ^ (64 * w) = H" and AmL: "A mod 2 ^ (64 * w) = L"
        using Llt by (simp_all add: AL)
      have pk: "(2::nat) ^ k = 2 ^ (64 * w) * 2 ^ c" by (simp add: kwc power_add)
      have QH: "Q = H div 2 ^ c"
        by (simp add: Q_def pk div_mult2_eq AH)
      have Amod: "A mod 2 ^ k = 2 ^ (64 * w) * (H mod 2 ^ c) + L"
        by (simp add: pk mod_mult2_eq AH AmL)
      have crc: "cr = (neg \<and> (H mod 2 ^ c \<noteq> 0 \<or> L \<noteq> 0))"
        by (auto simp: cr_def Amod)
      have car: "carry = (neg \<and> L \<noteq> 0)"
        by (auto simp: carry_def quo_carry_scan_iff L_def)
      have Qle: "Q \<le> H" by (simp add: QH)
      have Qlt: "Q < 2 ^ (64 * sz)" using Qle Hlt by simp
      have f1: "unat (shift div 64) = w" "unat (shift mod 64) = c"
        by (simp_all add: unat_div unat_mod w_def c_def k_def)
      have f3: "quo_extra_scan (take sz (drop w ds)) = ex"
        using lH by (simp add: quo_extra_scan_iff ex_def H_def Hs_def)
      have e0: "sz + e \<noteq> 0" using sz0 by simp
      define z2 where "z2 = (zz_resize (sz + e) (s ! v))\<lparr>negative := neg\<rparr>"
      define z3 where "z3 = z2\<lparr>digits := write_limbs (to_limbs sz Q) (digits z2)\<rparr>"
      note r = zz_resize_wf [OF wv, of "sz + e"]
      have nu1: "negative (s[v := zz_resize (sz + e) (s ! v)] ! u) = neg"
        using v e0 by (cases "u = v") (simp_all add: neg_def negative_zz_resize)
      have s2: "s[v := zz_resize (sz + e) (s ! v),
                  v := (s[v := zz_resize (sz + e) (s ! v)] ! v)
                         \<lparr>negative := negative (s[v := zz_resize (sz + e) (s ! v)] ! u)\<rparr>]
                = s[v := z2]"
        using v by (simp add: nu1 z2_def)
      have rdn: "take n (digits (s[v := z2] ! u)) = take n ds"
        unfolding z2_def ds_def
        using read_after_resize [OF u v cu, of n] by (simp add: n_def)
      have rdH: "take sz (drop w (digits (s[v := z2] ! u))) = Hs"
      proof -
        have "take sz (drop w (digits (s[v := z2] ! u)))
            = drop w (take n (digits (s[v := z2] ! u)))"
          by (simp add: take_drop szn)
        also have "\<dots> = drop w (take n ds)" by (simp only: rdn)
        also have "\<dots> = Hs" by (simp add: Hs_def take_drop szn)
        finally show ?thesis .
      qed
      have nu3: "negative (s[v := z3] ! u) = neg"
        using v by (cases "u = v") (simp_all add: neg_def z3_def z2_def)
      have Hto: "Hs = to_limbs sz H"
      proof -
        have "to_limbs (length Hs) (limbs_val Hs) = Hs" by (rule to_limbs_limbs_val)
        then show ?thesis by (simp only: lH H_def [symmetric])
      qed
      have dg: "zz_quo_2exp_digits (s[v := z2]) u v w sz c carry = (cr, s[v := z3])"
      proof (cases "c = 0")
        case True
        then have "Q = H" by (simp add: QH)
        then have "Hs = to_limbs sz Q" using Hto by simp
        moreover have "carry = cr" using True by (simp add: car crc)
        ultimately show ?thesis
          using v True
          by (simp add: zz_quo_2exp_digits_def mpn_copyi_def rdH z3_def
              del: to_limbs.simps)
      next
        case cn: False
        have out: "(fst (mpn_rshift Hs c) \<noteq> 0) = (H mod 2 ^ c \<noteq> 0)"
          using fst_mpn_rshift [of c Hs] cn c64 by (simp add: H_def)
        have rp: "snd (mpn_rshift Hs c) = to_limbs sz Q"
          by (simp add: snd_mpn_rshift lH H_def [symmetric] QH)
        have cr': "(if fst (mpn_rshift Hs c) \<noteq> 0 then negative (s[v := z3] ! u) else carry) = cr"
          unfolding out nu3 by (auto simp: crc car)
        show ?thesis
          using v cn
          by (simp add: zz_quo_2exp_digits_def Let_def case_prod_beta rdH rp
              z3_def cr' [unfolded z3_def] del: to_limbs.simps split del: if_split)
      qed
      have eq: "zz_quo_2exp s u shift v = (ZZ_OK, zz_quo_2exp_round (s[v := z3]) v sz ex cr)"
        using nz False v
        by (simp add: zz_quo_2exp_def Let_def szs cmp k_def [symmetric] f1 f3
            ds_def [symmetric] sz_def [symmetric] e_def [symmetric]
            carry_def [unfolded neg_def, symmetric] nu1 z2_def [symmetric] dg
            del: to_limbs.simps split del: if_split)
      have l1: "sz + e \<le> length (digits z2)" using r(3) by (simp add: z2_def)
      have S3: "s[v := z3] ! v = z3" using v by simp
      have a3: "alloc z3 = length (digits z3)"
        using r(1) l1 by (simp add: z3_def z2_def length_write_limbs max_def)
      have sz3: "size_zz z3 = sz + (if ex then 1 else 0)"
        by (simp add: z3_def z2_def e_def)
      have l3: "sz + (if ex then 1 else 0) \<le> length (digits z3)"
        using l1 by (simp add: z3_def length_write_limbs max_def e_def)
      have tk3: "take sz (digits z3) = to_limbs sz Q" by (simp add: z3_def)
      have co: "ex" if "cr \<and> Suc Q = 2 ^ (64 * sz)"
      proof -
        have "Suc Q = 2 ^ (64 * sz)" using that by simp
        then have "H = 2 ^ (64 * sz) - 1" using Qle Hlt by simp
        then show ?thesis by (simp add: ex_def)
      qed
      have v3: "v < length (s[v := z3])" using v by simp
      from zz_quo_2exp_round_spec [OF v3, of sz ex Q cr, unfolded S3, OF a3 sz3 l3 tk3 Qlt co]
      obtain z where
        z: "zz_quo_2exp_round (s[v := z3]) v sz ex cr = s[v := z3, v := z]" "canonical z"
           "zz_val z = signed_mag (negative z3) (Q + (if cr then 1 else 0))"
        by blast
      have "zz_val z = zz_val (s ! u) div 2 ^ k"
        unfolding U floor_shift z(3)
        by (simp add: z3_def z2_def Q_def cr_def)
      then show ?thesis
        using eq z(1,2) by (intro exI [of _ z]) (simp add: k_def)
    qed
  qed
qed




section \<open>Square root: correctness\<close>

lemma isqrt_correct: "isqrt n * isqrt n \<le> n \<and> n < (isqrt n + 1) * (isqrt n + 1)"
proof (induction n rule: isqrt.induct)
  case (1 n)
  show ?case
  proof (cases "n < 2")
    case True
    then have "n = 0 \<or> n = 1" by auto
    then show ?thesis by (subst (1 2 3 4) isqrt.simps) auto
  next
    case False
    define q where "q = isqrt (n div 4)"
    have IH: "q * q \<le> n div 4" "n div 4 < (q + 1) * (q + 1)"
      using 1 [OF False] by (simp_all add: q_def)
    have lo: "(2 * q) * (2 * q) \<le> n"
    proof -
      have "(2 * q) * (2 * q) = 4 * (q * q)" by simp
      also have "\<dots> \<le> 4 * (n div 4)" using IH(1) by simp
      also have "\<dots> \<le> n" by simp
      finally show ?thesis .
    qed
    have hi: "n < (2 * q + 2) * (2 * q + 2)"
    proof -
      have "n div 4 + 1 \<le> (q + 1) * (q + 1)" using IH(2) by simp
      then have "4 * (n div 4) + 4 \<le> 4 * ((q + 1) * (q + 1))" by simp
      moreover have "n < 4 * (n div 4) + 4" by (simp add: less_Suc_eq_le)
      moreover have "4 * ((q + 1) * (q + 1)) = (2 * q + 2) * (2 * q + 2)" by simp
      ultimately show ?thesis by linarith
    qed
    have e: "isqrt n = (if (2 * q + 1) * (2 * q + 1) \<le> n then 2 * q + 1 else 2 * q)"
      using False by (subst isqrt.simps) (simp add: q_def Let_def)
    show ?thesis
    proof (cases "(2 * q + 1) * (2 * q + 1) \<le> n")
      case True
      then have "isqrt n = 2 * q + 1" by (simp add: e)
      then show ?thesis using True hi by simp
    next
      case f: False
      then have "isqrt n = 2 * q" by (simp add: e)
      then show ?thesis using f lo by simp
    qed
  qed
qed

lemma isqrt_ge:
  assumes "a * a \<le> n"
  shows "a \<le> isqrt n"
proof (rule ccontr)
  assume "\<not> a \<le> isqrt n"
  then have "isqrt n + 1 \<le> a" by simp
  then have "(isqrt n + 1) * (isqrt n + 1) \<le> a * a" by (intro mult_le_mono)
  with assms isqrt_correct [of n] show False by linarith
qed

lemma isqrt_lt:
  assumes "n < b * b"
  shows "isqrt n < b"
proof (rule ccontr)
  assume "\<not> isqrt n < b"
  then have "b \<le> isqrt n" by simp
  then have "b * b \<le> isqrt n * isqrt n" by (intro mult_le_mono)
  with assms isqrt_correct [of n] show False by linarith
qed



lemma pow64_square: "(2::nat) ^ (64 * a) * 2 ^ (64 * a) = 2 ^ (64 * (2 * a))"
  by (simp flip: power_add)

text \<open>The size of the square root of an operand of \<open>n\<close> digits with a nonzero top digit.\<close>

lemma isqrt_bounds:
  assumes "0 < n" and "2 ^ (64 * (n - 1)) \<le> N" and "N < 2 ^ (64 * n)"
  shows "2 ^ (64 * ((n + 1) div 2 - 1)) \<le> isqrt N" and "isqrt N < 2 ^ (64 * ((n + 1) div 2))"
proof -
  define m where "m = (n + 1) div 2"
  have m: "2 * (m - 1) \<le> n - 1" "n \<le> 2 * m" using assms(1) by (simp_all add: m_def)
  have "(2::nat) ^ (64 * (2 * (m - 1))) \<le> 2 ^ (64 * (n - 1))"
    using m(1) by (intro pow64_mono)
  then have "2 ^ (64 * (m - 1)) * 2 ^ (64 * (m - 1)) \<le> N"
    unfolding pow64_square using assms(2) by (rule le_trans)
  then show "2 ^ (64 * ((n + 1) div 2 - 1)) \<le> isqrt N"
    unfolding m_def [symmetric] by (rule isqrt_ge)
  have "(2::nat) ^ (64 * n) \<le> 2 ^ (64 * (2 * m))"
    using m(2) by (intro pow64_mono)
  with assms(3) have "N < 2 ^ (64 * m) * 2 ^ (64 * m)"
    unfolding pow64_square by (rule less_le_trans)
  then show "isqrt N < 2 ^ (64 * ((n + 1) div 2))"
    unfolding m_def [symmetric] by (rule isqrt_lt)
qed

lemma isqrt_rem: "N - isqrt N * isqrt N \<le> 2 * isqrt N"
proof -
  have "(isqrt N + 1) * (isqrt N + 1) = isqrt N * isqrt N + 2 * isqrt N + 1"
    by (simp add: algebra_simps)
  with isqrt_correct [of N] show ?thesis by linarith
qed

lemma list_update_drop_first: "u \<noteq> v \<Longrightarrow> s[u := a, v := b, u := c] = s[v := b, u := c]"
  by (metis list_update_overwrite list_update_swap)

lemma zz_sqrtrem_kernel_spec:
  assumes u: "u < length s" and v: "v < length s" and w: "w < length s"
    and uv: "u \<noteq> v" and wv: "w \<noteq> v"
    and cu: "canonical (s ! u)" and nn: "\<not> negative (s ! u)" and nz: "size_zz (s ! u) \<noteq> 0"
    and wfv: "alloc (s ! v) = length (digits (s ! v))" and nv: "\<not> negative (s ! v)"
    and wfw: "alloc (s ! w) = length (digits (s ! w))"
  shows "\<exists>zv zw. zz_sqrtrem_kernel s u v (Some w) scratch = (ZZ_OK, s[v := zv, w := zw])
     \<and> zz_sqrtrem_kernel s u v None scratch = (ZZ_OK, s[v := zv])
     \<and> canonical zv \<and> canonical zw
     \<and> zz_val zv = int (isqrt (zz_mag (s ! u)))
     \<and> zz_val zw = int (zz_mag (s ! u) - isqrt (zz_mag (s ! u)) * isqrt (zz_mag (s ! u)))"
proof -
  define n where "n = size_zz (s ! u)"
  define m where "m = (n + 1) div 2"
  define N where "N = zz_mag (s ! u)"
  define S where "S = isqrt N"
  define R where "R = N - S * S"
  define rn where "rn = limbs_size R"
  define X where "X = (s ! w)\<lparr>negative := False\<rparr>"
  define rp where "rp = to_limbs rn R @ take (n - rn) scratch"
  define zv where "zv = (zz_resize m (s ! v))
      \<lparr>digits := write_limbs (to_limbs m S) (digits (zz_resize m (s ! v)))\<rparr>"
  define zw where "zw = (zz_resize n X)
      \<lparr>digits := write_limbs rp (digits (zz_resize n X)), size_zz := rn\<rparr>"
  have szs: "size_zz (s ! u) = n" by (simp add: n_def)
  have n0: "0 < n" using nz by (simp add: n_def)
  have m0: "0 < m" using n0 by (simp add: m_def)
  have lu: "n \<le> length (digits (s ! u))" using cu by (simp add: canonical_def n_def)
  have mn: "min (length (digits (s ! u))) n = n" using lu by simp
  have ND: "limbs_val (take n (digits (s ! u))) = N" by (simp add: N_def zz_mag_def n_def)
  have Nlo: "2 ^ (64 * (n - 1)) \<le> N"
    using canonical_mag_lower [OF cu] n0 by (simp add: N_def n_def)
  have Nlt: "N < 2 ^ (64 * n)" using zz_mag_lt [of "s ! u"] lu by (simp add: N_def n_def)
  note Sb = isqrt_bounds [OF n0 Nlo Nlt, folded m_def S_def]
  have Rlt: "R < 2 ^ (64 * n)" using Nlt by (simp add: R_def)
  have rnn: "rn \<le> n" unfolding rn_def using Rlt by (rule limbs_size_le)
  have wX: "alloc X = length (digits X)" using wfw by (simp add: X_def)
  note rv = zz_resize_wf [OF wfv, of m]
  note rw = zz_resize_wf [OF wX, of n]
  have lrp: "length rp \<le> n" using rnn by (simp add: rp_def)
  have trp: "take rn rp = to_limbs rn R" by (simp add: rp_def)
  have r4: "take n (digits (zz_resize n ((s ! u)\<lparr>negative := False\<rparr>))) = take n (digits (s ! u))"
  proof -
    have "alloc ((s ! u)\<lparr>negative := False\<rparr>) = length (digits ((s ! u)\<lparr>negative := False\<rparr>))"
      using cu by (simp add: canonical_def)
    from zz_resize_wf(4) [OF this, of n n] lu show ?thesis by simp
  qed
  have mn2: "min (length (digits (zz_resize n ((s ! w)\<lparr>negative := False\<rparr>)))) n = n"
    using rw(3) by (simp add: X_def)
  have eqS: "zz_sqrtrem_kernel s u v (Some w) scratch = (ZZ_OK, s[v := zv, w := zw])"
  proof (cases "w = u")
    case True
    have mn3: "min (length (digits (zz_resize n ((s ! u)\<lparr>negative := False\<rparr>)))) n = n"
      using mn2 True by simp
    show ?thesis
      unfolding zz_sqrtrem_kernel_def zv_def zw_def X_def rp_def rn_def R_def S_def m_def
      using u v uv True
      by (simp add: Let_def case_prod_beta mpn_sqrtrem_def szs r4 ND mn mn3
          list_update_drop_first del: to_limbs.simps split del: if_split)
  next
    case False
    show ?thesis
      unfolding zz_sqrtrem_kernel_def zv_def zw_def X_def rp_def rn_def R_def S_def m_def
      using u v w uv wv False
      by (simp add: Let_def case_prod_beta mpn_sqrtrem_def szs ND mn list_update_drop_first
          del: to_limbs.simps split del: if_split)
  qed
  have eqN: "zz_sqrtrem_kernel s u v None scratch = (ZZ_OK, s[v := zv])"
    unfolding zz_sqrtrem_kernel_def zv_def S_def m_def
    using u v uv
    by (simp add: Let_def case_prod_beta mpn_sqrtrem_def szs ND mn
        del: to_limbs.simps split del: if_split)
  have cv: "canonical zv"
  proof -
    have "to_limbs m S ! (m - 1) \<noteq> 0"
      using m0 Sb by (rule to_limbs_top_nonzero)
    moreover have "digits zv ! (m - 1) = to_limbs m S ! (m - 1)"
      using m0 by (simp add: zv_def write_limbs_def nth_append del: to_limbs.simps)
    ultimately show ?thesis
      using rv(1,3) m0
      by (simp add: canonical_def zv_def length_write_limbs max_def del: to_limbs.simps)
  qed
  have vv: "zz_val zv = int S"
    using nv m0 Sb(2)
    by (simp add: zz_val_def zz_mag_def zv_def negative_zz_resize limbs_val_to_limbs
        del: to_limbs.simps)
  have lw: "length (digits zw) = length (digits (zz_resize n X))"
    using lrp rw(3) by (simp add: zw_def length_write_limbs max_def)
  have tw: "take rn (digits zw) = to_limbs rn R"
  proof -
    have "take rn (digits zw) = take rn rp"
      using rnn by (simp add: zw_def write_limbs_def rp_def del: to_limbs.simps)
    then show ?thesis by (simp only: trp)
  qed
  have negw: "\<not> negative zw"
    using n0 by (simp add: zw_def negative_zz_resize X_def)
  have cw: "canonical zw"
  proof (cases "R = 0")
    case True
    then have "rn = 0" by (simp add: rn_def)
    then show ?thesis
      using rw(1) negw by (simp add: canonical_def lw) (simp add: zw_def)
  next
    case False
    then have "rn \<noteq> 0" unfolding rn_def by (simp only: limbs_size_eq_0 not_False_eq_True)
    then have r0: "0 < rn" by simp
    have "2 ^ (64 * (rn - 1)) \<le> R" unfolding rn_def using False by (rule limbs_size_lower)
    moreover have "R < 2 ^ (64 * rn)" unfolding rn_def by (rule limbs_size_bound)
    ultimately have "to_limbs rn R ! (rn - 1) \<noteq> 0"
      using r0 by (intro to_limbs_top_nonzero)
    moreover have "digits zw ! (rn - 1) = to_limbs rn R ! (rn - 1)"
    proof -
      have "take rn (digits zw) ! (rn - 1) = digits zw ! (rn - 1)" using r0 by simp
      then show ?thesis by (simp only: tw)
    qed
    ultimately have top: "digits zw ! (rn - 1) \<noteq> 0" by simp
    have "size_zz zw = rn" by (simp add: zw_def)
    moreover have "alloc zw = length (digits zw)" using rw(1) by (simp add: lw) (simp add: zw_def)
    moreover have "rn \<le> length (digits zw)" using rnn rw(3) by (simp add: lw)
    ultimately show ?thesis using top r0 by (simp add: canonical_def)
  qed
  have vw: "zz_val zw = int R"
  proof -
    have "R < 2 ^ (64 * rn)" unfolding rn_def by (rule limbs_size_bound)
    moreover have "size_zz zw = rn" by (simp add: zw_def)
    ultimately show ?thesis
      using negw by (simp add: zz_val_def zz_mag_def tw limbs_val_to_limbs)
  qed
  show ?thesis
    using eqS eqN cv cw vv vw
    by (intro exI [of _ zv] exI [of _ zw]) (simp add: S_def R_def N_def)
qed


lemma isqrt_0 [simp]: "isqrt 0 = 0"
  by (simp add: isqrt.simps)

lemma clear_sign_id: "\<not> negative (z :: zz_t) \<Longrightarrow> z\<lparr>negative := False\<rparr> = z"
  by (cases z) simp

lemma drop_tmp_one:
  assumes "v < length s"
  shows "take (length s) ((s @ [a])[v := zv, length s := c]) = s[v := zv]"
    and "take (length s) ((s @ [a])[v := zv]) = s[v := zv]"
  using assms by (simp_all add: list_update_append)

text \<open>\<^verbatim>\<open>zz_sqrtrem\<close> of an operand that is not the output \<open>v\<close>; the remainder may be the operand.\<close>

lemma zz_sqrtrem_distinct:
  assumes u: "u < length s" and v: "v < length s" and w: "w < length s"
    and uv: "u \<noteq> v" and wv: "w \<noteq> v"
    and cu: "canonical (s ! u)" and nn: "\<not> negative (s ! u)" and nz: "size_zz (s ! u) \<noteq> 0"
    and wfv: "alloc (s ! v) = length (digits (s ! v))"
    and wfw: "alloc (s ! w) = length (digits (s ! w))"
  shows "\<exists>zv zw. zz_sqrtrem s u v (Some w) scratch = (ZZ_OK, s[v := zv, w := zw])
     \<and> zz_sqrtrem s u v None scratch = (ZZ_OK, s[v := zv])
     \<and> canonical zv \<and> canonical zw
     \<and> zz_val zv = int (isqrt (zz_mag (s ! u)))
     \<and> zz_val zw = int (zz_mag (s ! u) - isqrt (zz_mag (s ! u)) * isqrt (zz_mag (s ! u)))"
proof -
  define s1 where "s1 = s[v := (s ! v)\<lparr>negative := False\<rparr>]"
  have s1: "u < length s1" "v < length s1" "w < length s1"
      "canonical (s1 ! u)" "\<not> negative (s1 ! u)" "size_zz (s1 ! u) \<noteq> 0"
      "alloc (s1 ! v) = length (digits (s1 ! v))" "\<not> negative (s1 ! v)"
      "alloc (s1 ! w) = length (digits (s1 ! w))"
    using u v w uv wv cu nn nz wfv wfw by (simp_all add: s1_def)
  from zz_sqrtrem_kernel_spec [OF s1(1-3) uv wv s1(4-9), of scratch] obtain zv zw where
    k: "zz_sqrtrem_kernel s1 u v (Some w) scratch = (ZZ_OK, s1[v := zv, w := zw])"
       "zz_sqrtrem_kernel s1 u v None scratch = (ZZ_OK, s1[v := zv])"
       "canonical zv" "canonical zw"
       "zz_val zv = int (isqrt (zz_mag (s1 ! u)))"
       "zz_val zw = int (zz_mag (s1 ! u) - isqrt (zz_mag (s1 ! u)) * isqrt (zz_mag (s1 ! u)))"
    by blast
  have s1u: "s1 ! u = s ! u" using uv by (simp add: s1_def)
  have e1: "zz_sqrtrem s u v (Some w) scratch = zz_sqrtrem_kernel s1 u v (Some w) scratch"
    using zz_sqrtrem.simps [of s u v "Some w" scratch] nn nz uv
    by (simp add: Let_def s1_def)
  have e2: "zz_sqrtrem s u v None scratch = zz_sqrtrem_kernel s1 u v None scratch"
    using zz_sqrtrem.simps [of s u v None scratch] nn nz uv
    by (simp add: Let_def s1_def)
  have o: "s1[v := zv, w := zw] = s[v := zv, w := zw]" "s1[v := zv] = s[v := zv]"
    by (simp_all add: s1_def)
  show ?thesis
    using k(3-6) by (intro exI [of _ zv] exI [of _ zw]) (simp add: e1 e2 k(1,2) o s1u)
qed

lemma zz_sqrtrem_spec:
  assumes u: "u < length s" and v: "v < length s" and w: "w < length s"
    and wv: "w \<noteq> v"
    and cu: "canonical (s ! u)" and nn: "\<not> negative (s ! u)"
    and wfv: "alloc (s ! v) = length (digits (s ! v))"
    and wfw: "alloc (s ! w) = length (digits (s ! w))"
  shows "\<exists>zv zw. zz_sqrtrem s u v (Some w) scratch = (ZZ_OK, s[v := zv, w := zw])
     \<and> zz_sqrtrem s u v None scratch = (ZZ_OK, s[v := zv])
     \<and> canonical zv \<and> canonical zw
     \<and> zz_val zv = int (isqrt (zz_mag (s ! u)))
     \<and> zz_val zw = int (zz_mag (s ! u) - isqrt (zz_mag (s ! u)) * isqrt (zz_mag (s ! u)))"
proof (cases "size_zz (s ! u) = 0")
  case True
  define zv where "zv = (s ! v)\<lparr>negative := False, size_zz := 0\<rparr>"
  define zw where "zw = (s ! w)\<lparr>size_zz := 0, negative := False\<rparr>"
  have z: "size_zz (s[v := (s ! v)\<lparr>negative := False\<rparr>] ! u) = 0"
    using True v by (cases "u = v") simp_all
  have mag: "zz_mag (s ! u) = 0" using True by (simp add: zz_mag_def)
  have e1: "zz_sqrtrem s u v (Some w) scratch = (ZZ_OK, s[v := zv, w := zw])"
    using zz_sqrtrem.simps [of s u v "Some w" scratch] nn z v w wv
    by (simp add: Let_def zv_def zw_def)
  have e2: "zz_sqrtrem s u v None scratch = (ZZ_OK, s[v := zv])"
    using zz_sqrtrem.simps [of s u v None scratch] nn z v
    by (simp add: Let_def zv_def)
  have "canonical zv" "canonical zw" "zz_val zv = 0" "zz_val zw = 0"
    using wfv wfw by (simp_all add: canonical_def zv_def zw_def zz_val_def zz_mag_def)
  then show ?thesis
    using e1 e2 by (intro exI [of _ zv] exI [of _ zw]) (simp add: mag)
next
  case nz: False
  show ?thesis
  proof (cases "u = v")
    case False
    from zz_sqrtrem_distinct [OF u v w False wv cu nn nz wfv wfw] show ?thesis .
  next
    case True
    have s1eq: "s[v := (s ! v)\<lparr>negative := False\<rparr>] = s"
      using nn True by (simp add: clear_sign_id)
    from zz_pos_tmp [OF v] cu True obtain zu where
      zu: "snd (zz_pos (s @ [zz_init]) v (length s)) = s @ [zu]" "canonical zu"
          "zz_val zu = zz_val (s ! v)" "size_zz zu = size_zz (s ! v)"
      by blast
    have "0 \<le> zz_val (s ! v)" using nn True by (simp add: zz_val_def)
    then have "\<not> zz_val zu < 0" by (simp add: zu(3))
    then have nzu: "\<not> negative zu"
      using canonical_negative_val [OF zu(2)] by simp
    have magu: "zz_mag zu = zz_mag (s ! u)"
      using zu(3) nzu nn True by (simp add: zz_val_def)
    let ?S = "s @ [zu]"
    let ?t = "length s"
    have S: "?t < length ?S" "v < length ?S" "w < length ?S" "?t \<noteq> v" "w \<noteq> v"
        "canonical (?S ! ?t)" "\<not> negative (?S ! ?t)" "size_zz (?S ! ?t) \<noteq> 0"
        "alloc (?S ! v) = length (digits (?S ! v))"
        "alloc (?S ! w) = length (digits (?S ! w))"
      using v w wv zu(2,4) nzu nz True wfv wfw by (simp_all add: nth_append)
    from zz_sqrtrem_distinct [OF S, of scratch] obtain zv zw where
      k: "zz_sqrtrem ?S ?t v (Some w) scratch = (ZZ_OK, ?S[v := zv, w := zw])"
         "zz_sqrtrem ?S ?t v None scratch = (ZZ_OK, ?S[v := zv])"
         "canonical zv" "canonical zw"
         "zz_val zv = int (isqrt (zz_mag (?S ! ?t)))"
         "zz_val zw = int (zz_mag (?S ! ?t) - isqrt (zz_mag (?S ! ?t)) * isqrt (zz_mag (?S ! ?t)))"
      by blast
    have e1: "zz_sqrtrem s u v (Some w) scratch = (ZZ_OK, s[v := zv, w := zw])"
      using zz_sqrtrem.simps [of s u v "Some w" scratch] nn nz True v w
      by (simp add: Let_def s1eq zu(1) k(1) drop_tmp drop_tmp_kept)
    have e2: "zz_sqrtrem s u v None scratch = (ZZ_OK, s[v := zv])"
      using zz_sqrtrem.simps [of s u v None scratch] nn nz True v
      by (simp add: Let_def s1eq zu(1) k(2) drop_tmp_one)
    show ?thesis
      using e1 e2 k(3-6) by (intro exI [of _ zv] exI [of _ zw]) (simp add: magu)
  qed
qed


section \<open>Sign changes in place\<close>

text \<open>
  C10.  When the output is the input itself (\<open>v = u\<close>, the same object), \<^verbatim>\<open>zz_neg\<close> and
  \<^verbatim>\<open>zz_abs\<close> return \<^verbatim>\<open>ZZ_OK\<close> and change nothing but the sign field of that object: its digit
  buffer, its digit count and its capacity are as before, and so is every other object of the
  store.  \<^verbatim>\<open>zz_abs\<close> clears the sign; \<^verbatim>\<open>zz_neg\<close> flips it when the value is not zero and leaves
  the cleared sign of a canonical zero as it is.
\<close>

theorem zz_neg_abs_in_place:
  assumes "u < length s" and "canonical (s ! u)"
  shows "zz_neg s u u =
           (ZZ_OK, s[u := (s ! u)\<lparr>negative := (size_zz (s ! u) \<noteq> 0 \<and> \<not> negative (s ! u))\<rparr>])
       \<and> zz_abs s u u = (ZZ_OK, s[u := (s ! u)\<lparr>negative := False\<rparr>])
       \<and> digits (snd (zz_neg s u u) ! u) = digits (s ! u)
       \<and> size_zz (snd (zz_neg s u u) ! u) = size_zz (s ! u)
       \<and> alloc (snd (zz_neg s u u) ! u) = alloc (s ! u)
       \<and> digits (snd (zz_abs s u u) ! u) = digits (s ! u)
       \<and> size_zz (snd (zz_abs s u u) ! u) = size_zz (s ! u)
       \<and> alloc (snd (zz_abs s u u) ! u) = alloc (s ! u)"
proof -
  have zero: "size_zz (s ! u) = 0 \<Longrightarrow> \<not> negative (s ! u)"
    using assms(2) by (auto simp: canonical_def)
  have same: "s[u := (s ! u)\<lparr>negative := negative (s ! u)\<rparr>] = s"
    by (simp add: list_update_same_conv)
  have neg: "zz_neg s u u =
      (ZZ_OK, s[u := (s ! u)\<lparr>negative := (size_zz (s ! u) \<noteq> 0 \<and> \<not> negative (s ! u))\<rparr>])"
  proof (cases "size_zz (s ! u) = 0")
    case True
    with zero same show ?thesis by (simp add: zz_neg_def)
  next
    case False
    then show ?thesis by (simp add: zz_neg_def)
  qed
  have ab: "zz_abs s u u = (ZZ_OK, s[u := (s ! u)\<lparr>negative := False\<rparr>])"
    by (simp add: zz_abs_def)
  show ?thesis
    using assms(1) by (simp add: neg ab)
qed

theorem zz_neg_abs_in_place_witness:
  "(0::nat) < length [\<lparr>negative = False, alloc = 2, size_zz = 1, digits = [5, 7]\<rparr>]
   \<and> canonical \<lparr>negative = False, alloc = 2, size_zz = 1, digits = [5, 7]\<rparr>
   \<and> zz_neg [\<lparr>negative = False, alloc = 2, size_zz = 1, digits = [5, 7]\<rparr>] 0 0 =
       (ZZ_OK, [\<lparr>negative = True, alloc = 2, size_zz = 1, digits = [5, 7]\<rparr>])
   \<and> zz_abs [\<lparr>negative = False, alloc = 2, size_zz = 1, digits = [5, 7]\<rparr>] 0 0 =
       (ZZ_OK, [\<lparr>negative = False, alloc = 2, size_zz = 1, digits = [5, 7]\<rparr>])"
  using zz_neg_abs_in_place [of 0 "[\<lparr>negative = False, alloc = 2, size_zz = 1, digits = [5, 7]\<rparr>]"]
  by (simp add: canonical_def)

section \<open>Power of a base of magnitude one\<close>

text \<open>
  C2.  \<^verbatim>\<open>zz_pow\<close> singles out the base \<open>1\<close> (\<^verbatim>\<open>zz_cmp_i64(u, 1) == ZZ_EQ\<close>) but not the base
  \<open>-1\<close>, which falls through to the size bound \<^verbatim>\<open>v > ZZ_DIGITS_MAX / u->size\<close>.  With the
  base \<open>-1\<close> (one digit, negative) and the exponent \<open>2^58\<close> the call returns \<^verbatim>\<open>ZZ_BUF\<close> and
  leaves the output untouched, although the power is \<open>1\<close>.
\<close>

theorem zz_pow_minus_one_buf:
  "zz_val \<lparr>negative = True, alloc = 1, size_zz = 1, digits = [1]\<rparr> = - 1
   \<and> zz_pow [\<lparr>negative = True, alloc = 1, size_zz = 1, digits = [1]\<rparr>, zz_init] 0 (2 ^ 58) 1
       = (ZZ_BUF, [\<lparr>negative = True, alloc = 1, size_zz = 1, digits = [1]\<rparr>, zz_init])"
  by (subst zz_pow.simps)
     (simp add: zz_val_def zz_mag_def zz_cmp_i64_def ZZ_DIGITS_MAX_def ABS_CAST_def)

section \<open>Division with remainder\<close>

text \<open>
  C1.  \<^verbatim>\<open>zz_div\<close> divides with the flooring convention, not the truncating one.  Let \<open>u\<close> and
  \<open>v\<close> be canonical objects, \<open>v\<close> not zero and \<open>u\<close> of fewer than \<^verbatim>\<open>ZZ_DIGITS_MAX\<close> digits, and
  let \<open>q\<close> and \<open>r\<close> be two different initialised objects (the capacity is the length of the
  digit buffer); each of them may be \<open>u\<close> or \<open>v\<close> itself.  One kind of call is left out: \<open>u\<close> is
  not zero and has fewer digits than \<open>v\<close>, and \<open>q\<close> is \<open>u\<close>, or \<open>q\<close> is \<open>v\<close> and the signs of \<open>u\<close>
  and \<open>v\<close> differ.  Then \<^verbatim>\<open>zz_div(u, v, q, r)\<close> returns \<^verbatim>\<open>ZZ_OK\<close>, changes only \<open>q\<close> and \<open>r\<close>, leaves
  both canonical, and with the values of \<open>u\<close> and \<open>v\<close> before the call \<open>q * v + r = u\<close>, where
  \<open>q\<close> is the quotient rounded towards minus infinity and the remainder is zero or has the
  sign of the divisor \<open>v\<close> (not of the dividend), with \<open>|r| < |v|\<close>.
\<close>

theorem zz_div_floor:
  assumes "u < length s" and "v < length s" and "q < length s" and "r < length s"
    and "q \<noteq> r"
    and "canonical (s ! u)" and "canonical (s ! v)"
    and "alloc (s ! q) = length (digits (s ! q))"
    and "alloc (s ! r) = length (digits (s ! r))"
    and "zz_val (s ! v) \<noteq> 0"
    and "size_zz (s ! u) < ZZ_DIGITS_MAX"
    and "\<not> (size_zz (s ! u) \<noteq> 0 \<and> size_zz (s ! u) < size_zz (s ! v)
            \<and> (q = u \<or> (q = v \<and> negative (s ! u) \<noteq> negative (s ! v))))"
  shows "\<exists>zq zr. zz_div s u v (Some q) (Some r) = (ZZ_OK, s[q := zq, r := zr])
     \<and> canonical zq \<and> canonical zr
     \<and> zz_val zq * zz_val (s ! v) + zz_val zr = zz_val (s ! u)
     \<and> zz_val zq = zz_val (s ! u) div zz_val (s ! v)
     \<and> zz_val zr = zz_val (s ! u) mod zz_val (s ! v)
     \<and> (zz_val zr = 0 \<or> (zz_val zr < 0 \<longleftrightarrow> zz_val (s ! v) < 0))
     \<and> \<bar>zz_val zr\<bar> < \<bar>zz_val (s ! v)\<bar>"
proof -
  have vnz: "size_zz (s ! v) \<noteq> 0"
    using assms(7,10) by (simp add: canonical_val_zero_iff)
  have short: "q \<noteq> u \<and> (q = v \<longrightarrow> negative (s ! u) = negative (s ! v))"
    if "size_zz (s ! u) \<noteq> 0" and "size_zz (s ! u) < size_zz (s ! v)"
    using assms(12) that by blast
  from zz_div_spec [OF assms(1-9) vnz assms(11) short] obtain zq zr where
    d: "zz_div s u v (Some q) (Some r) = (ZZ_OK, s[q := zq, r := zr])"
       "canonical zq" "canonical zr"
       "zz_val zq = zz_val (s ! u) div zz_val (s ! v)"
       "zz_val zr = zz_val (s ! u) mod zz_val (s ! v)"
    by blast
  have "zz_val zq * zz_val (s ! v) + zz_val zr = zz_val (s ! u)"
    by (simp add: d(4,5))
  moreover have "zz_val zr = 0 \<or> (zz_val zr < 0 \<longleftrightarrow> zz_val (s ! v) < 0)"
  proof (cases "zz_val (s ! v) < 0")
    case True
    then have "zz_val (s ! u) mod zz_val (s ! v) \<le> 0" by (rule neg_mod_sign)
    then show ?thesis using True unfolding d(5) by linarith
  next
    case False
    then have "0 < zz_val (s ! v)" using assms(10) by simp
    then have "0 \<le> zz_val (s ! u) mod zz_val (s ! v)" by (rule pos_mod_sign)
    then show ?thesis using False unfolding d(5) by linarith
  qed
  moreover have "\<bar>zz_val zr\<bar> < \<bar>zz_val (s ! v)\<bar>"
    using assms(10) unfolding d(5) by (rule abs_mod_less)
  ultimately show ?thesis
    using d by (intro exI [of _ zq] exI [of _ zr]) simp
qed

text \<open>The call \<^verbatim>\<open>zz_div(u, v, u, r)\<close> with \<open>u = 7\<close> and \<open>v = -2\<close>: the quotient replaces the dividend.\<close>

theorem zz_div_floor_witness:
  "(0::nat) < length [\<lparr>negative = False, alloc = 1, size_zz = 1, digits = [7]\<rparr>,
                      \<lparr>negative = True, alloc = 1, size_zz = 1, digits = [2]\<rparr>, zz_init]
   \<and> canonical \<lparr>negative = False, alloc = 1, size_zz = 1, digits = [7]\<rparr>
   \<and> canonical \<lparr>negative = True, alloc = 1, size_zz = 1, digits = [2]\<rparr>
   \<and> alloc zz_init = length (digits zz_init)
   \<and> zz_val \<lparr>negative = False, alloc = 1, size_zz = 1, digits = [7]\<rparr> = 7
   \<and> zz_val \<lparr>negative = True, alloc = 1, size_zz = 1, digits = [2]\<rparr> = - 2
   \<and> (1::nat) < ZZ_DIGITS_MAX
   \<and> (\<exists>zq zr. zz_div [\<lparr>negative = False, alloc = 1, size_zz = 1, digits = [7]\<rparr>,
                       \<lparr>negative = True, alloc = 1, size_zz = 1, digits = [2]\<rparr>, zz_init]
                      0 1 (Some 0) (Some 2)
                = (ZZ_OK, [zq, \<lparr>negative = True, alloc = 1, size_zz = 1, digits = [2]\<rparr>, zr])
        \<and> canonical zq \<and> canonical zr \<and> zz_val zq = - 4 \<and> zz_val zr = - 1)"
proof -
  let ?u = "\<lparr>negative = False, alloc = 1, size_zz = 1, digits = [7]\<rparr>"
  let ?v = "\<lparr>negative = True, alloc = 1, size_zz = 1, digits = [2]\<rparr>"
  let ?S = "[?u, ?v, zz_init]"
  have c: "canonical ?u" "canonical ?v" "alloc zz_init = length (digits zz_init)"
    by (simp_all add: canonical_def zz_init_def)
  have v: "zz_val ?u = 7" "zz_val ?v = - 2"
    by (simp_all add: zz_val_def zz_mag_def)
  have m: "(1::nat) < ZZ_DIGITS_MAX" by (simp add: ZZ_DIGITS_MAX_def)
  have "\<exists>zq zr. zz_div ?S 0 1 (Some 0) (Some 2) = (ZZ_OK, ?S[0 := zq, 2 := zr])
     \<and> canonical zq \<and> canonical zr
     \<and> zz_val zq * zz_val (?S ! 1) + zz_val zr = zz_val (?S ! 0)
     \<and> zz_val zq = zz_val (?S ! 0) div zz_val (?S ! 1)
     \<and> zz_val zr = zz_val (?S ! 0) mod zz_val (?S ! 1)
     \<and> (zz_val zr = 0 \<or> (zz_val zr < 0 \<longleftrightarrow> zz_val (?S ! 1) < 0))
     \<and> \<bar>zz_val zr\<bar> < \<bar>zz_val (?S ! 1)\<bar>"
    by (rule zz_div_floor)
       (simp_all add: canonical_def zz_init_def zz_val_def zz_mag_def ZZ_DIGITS_MAX_def)
  then obtain zq zr where
    d: "zz_div ?S 0 1 (Some 0) (Some 2) = (ZZ_OK, ?S[0 := zq, 2 := zr])"
       "canonical zq" "canonical zr"
       "zz_val zq = zz_val (?S ! 0) div zz_val (?S ! 1)"
       "zz_val zr = zz_val (?S ! 0) mod zz_val (?S ! 1)"
    by blast
  have e: "?S[0 := zq, 2 := zr] = [zq, ?v, zr]" by (simp add: numeral_2_eq_2)
  have q: "zz_val zq = - 4" and r: "zz_val zr = - 1"
    using d(4,5) by (simp_all add: zz_val_def zz_mag_def)
  have l: "(0::nat) < length ?S" by simp
  from l c v m d(1-3) q r show ?thesis
    unfolding e by (intro conjI exI [of _ zq] exI [of _ zr])
qed

text \<open>
  The dividend \<open>-7\<close> and the divisor \<open>2\<close>: the quotient is \<open>-4\<close> and the remainder \<open>1\<close>,
  where truncation gives \<open>-3\<close> and \<open>-1\<close>; the remainder has the sign of the divisor.
\<close>

theorem zz_div_not_truncating:
  "zz_val \<lparr>negative = True, alloc = 1, size_zz = 1, digits = [7]\<rparr> = - 7
   \<and> zz_val \<lparr>negative = False, alloc = 1, size_zz = 1, digits = [2]\<rparr> = 2
   \<and> zz_div [\<lparr>negative = True, alloc = 1, size_zz = 1, digits = [7]\<rparr>,
             \<lparr>negative = False, alloc = 1, size_zz = 1, digits = [2]\<rparr>, zz_init, zz_init]
            0 1 (Some 2) (Some 3)
       = (ZZ_OK, [\<lparr>negative = True, alloc = 1, size_zz = 1, digits = [7]\<rparr>,
                  \<lparr>negative = False, alloc = 1, size_zz = 1, digits = [2]\<rparr>,
                  \<lparr>negative = True, alloc = 2, size_zz = 1, digits = [4, 0]\<rparr>,
                  \<lparr>negative = False, alloc = 1, size_zz = 1, digits = [1]\<rparr>])
   \<and> zz_val \<lparr>negative = True, alloc = 2, size_zz = 1, digits = [4, 0]\<rparr> = - 4
   \<and> zz_val \<lparr>negative = False, alloc = 1, size_zz = 1, digits = [1]\<rparr> = 1"
proof -
  let ?u = "\<lparr>negative = True, alloc = Suc 0, size_zz = Suc 0, digits = [7]\<rparr>"
  let ?v = "\<lparr>negative = False, alloc = Suc 0, size_zz = Suc 0, digits = [2]\<rparr>"
  let ?qt = "\<lparr>negative = True, alloc = Suc 0, size_zz = Suc 0, digits = [3]\<rparr>"
  let ?rt = "\<lparr>negative = False, alloc = Suc 0, size_zz = Suc 0, digits = [1]\<rparr>"
  let ?qf = "\<lparr>negative = True, alloc = Suc (Suc 0), size_zz = Suc 0, digits = [4, 0]\<rparr>"
  have idx: "(2::nat) = Suc (Suc 0)" "(3::nat) = Suc (Suc (Suc 0))" by simp_all
  have t: "zz_div_tdiv [?u, ?v, zz_init, zz_init] 0 (Suc 0) (Suc (Suc 0)) (Suc (Suc (Suc 0)))
      = [?u, ?v, ?qt, ?rt]"
    apply (simp add: zz_div_tdiv_def Let_def case_prod_beta del: to_limbs.simps split del: if_split)
    apply (simp add: zz_init_def zz_resize_def realloc_def write_limbs_def mpn_tdiv_qr_def
        zz_normalize_def)
    done
  have s: "zz_sub_i64 [?u, ?v, ?qt, ?rt] (Suc (Suc 0)) 1 (Suc (Suc 0)) = (ZZ_OK, [?u, ?v, ?qf, ?rt])"
    apply (simp add: zz_sub_i64_def zz_addsub_i64_def zz_addsub_u64_def Let_def case_prod_beta
        ABS_CAST_def ZZ_DIGITS_MAX_def del: to_limbs.simps split del: if_split)
    apply (simp add: zz_resize_def realloc_def write_limbs_def mpn_add_1_def zz_normalize_def)
    done
  have a: "zz_div_adjust [?u, ?v, ?qt, ?rt] (Suc 0) (Suc (Suc 0)) (Suc (Suc (Suc 0)))
      = (ZZ_OK, [?u, ?v, ?qf, ?rt])"
    apply (simp add: zz_div_adjust_def s Let_def case_prod_beta del: to_limbs.simps
        split del: if_split)
    apply (simp add: write_limbs_def mpn_sub_n_def mpn_sub_def zz_normalize_def)
    done
  have "zz_div [?u, ?v, zz_init, zz_init] 0 1 (Some (Suc (Suc 0))) (Some (Suc (Suc (Suc 0))))
      = (ZZ_OK, [?u, ?v, ?qf, ?rt])"
    by (simp add: zz_div_both zz_div_kernel_def t a)
  then show ?thesis
    unfolding idx by (simp add: zz_val_def zz_mag_def)
qed

text \<open>
  The kind of call left out above.  For a dividend with fewer digits than the divisor the
  quotient is written before the operands are read (\<^verbatim>\<open>zz_set_i64(-1, q) || zz_add(u, v, r)\<close>
  and \<^verbatim>\<open>zz_set_i64(0, q) || zz_pos(u, r)\<close>), so with \<open>q\<close> the dividend itself the remainder is
  computed from the quotient.  For \<open>u = 5\<close> and \<open>v = -(2^64 + 3)\<close> the call \<^verbatim>\<open>zz_div(u, v, u, r)\<close>
  returns \<^verbatim>\<open>ZZ_OK\<close> with \<open>q = -1\<close> and \<open>r = -(2^64 + 4)\<close>, where the remainder of the division
  is \<open>-(2^64 - 2)\<close>; then \<open>q * v + r = -1\<close>, not \<open>5\<close>.
\<close>

theorem zz_div_quotient_over_dividend:
  "zz_val \<lparr>negative = False, alloc = 1, size_zz = 1, digits = [5]\<rparr> = 5
   \<and> zz_val \<lparr>negative = True, alloc = 2, size_zz = 2, digits = [3, 1]\<rparr> = - 18446744073709551619
   \<and> zz_div [\<lparr>negative = False, alloc = 1, size_zz = 1, digits = [5]\<rparr>,
             \<lparr>negative = True, alloc = 2, size_zz = 2, digits = [3, 1]\<rparr>, zz_init]
            0 1 (Some 0) (Some 2)
       = (ZZ_OK, [\<lparr>negative = True, alloc = 1, size_zz = 1, digits = [1]\<rparr>,
                  \<lparr>negative = True, alloc = 2, size_zz = 2, digits = [3, 1]\<rparr>,
                  \<lparr>negative = True, alloc = 3, size_zz = 2, digits = [4, 1, 0]\<rparr>])
   \<and> zz_val \<lparr>negative = True, alloc = 1, size_zz = 1, digits = [1]\<rparr> = - 1
   \<and> zz_val \<lparr>negative = True, alloc = 3, size_zz = 2, digits = [4, 1, 0]\<rparr>
       = - 18446744073709551620
   \<and> (- 1) * (- 18446744073709551619) + (- 18446744073709551620) = (- 1 :: int)"
proof -
  let ?u = "\<lparr>negative = False, alloc = Suc 0, size_zz = Suc 0, digits = [5]\<rparr>"
  let ?v = "\<lparr>negative = True, alloc = Suc (Suc 0), size_zz = Suc (Suc 0), digits = [3, 1]\<rparr>"
  let ?qf = "\<lparr>negative = True, alloc = Suc 0, size_zz = Suc 0, digits = [1]\<rparr>"
  let ?rf = "\<lparr>negative = True, alloc = Suc (Suc (Suc 0)), size_zz = Suc (Suc 0),
      digits = [4, 1, 0]\<rparr>"
  have idx: "(2::nat) = Suc (Suc 0)" "(3::nat) = Suc (Suc (Suc 0))" by simp_all
  have q: "zz_set_i64 (- 1) ?u = ?qf"
    by (simp add: zz_set_i64_def zz_resize_def ABS_CAST_def Let_def)
  have a: "zz_add [?qf, ?v, zz_init] 0 (Suc 0) (Suc (Suc 0)) = (ZZ_OK, [?qf, ?v, ?rf])"
    apply (simp add: zz_add_def zz_addsub_def zz_addsub_swapped_def Let_def case_prod_beta
        ZZ_DIGITS_MAX_def del: to_limbs.simps split del: if_split)
    apply (simp add: zz_init_def zz_resize_def realloc_def write_limbs_def mpn_add_def
        zz_normalize_def Let_def)
    done
  have sh: "zz_div_short [?u, ?v, zz_init] 0 (Suc 0) 0 (Suc (Suc 0)) = (ZZ_OK, [?qf, ?v, ?rf])"
    by (simp add: zz_div_short_def q a)
  have "zz_div [?u, ?v, zz_init] 0 (Suc 0) (Some 0) (Some (Suc (Suc 0)))
      = (ZZ_OK, [?qf, ?v, ?rf])"
    by (simp add: zz_div_both sh)
  then show ?thesis
    unfolding idx by (simp add: zz_val_def zz_mag_def)
qed

section \<open>Shifting a negative number right\<close>

text \<open>
  C6.  For a negative \<open>u\<close> and every shift count \<open>k\<close>, \<^verbatim>\<open>zz_quo_2exp(u, k, v)\<close> returns \<^verbatim>\<open>ZZ_OK\<close>,
  changes only \<open>v\<close> and leaves in it, in canonical form, the quotient of \<open>u\<close> by \<open>2^k\<close> rounded
  towards minus infinity: the value \<open>z\<close> with \<open>z * 2^k \<le> u < (z + 1) * 2^k\<close>.  Its magnitude is
  the magnitude of \<open>u\<close> shifted right by \<open>k\<close> bits, plus one when a bit shifted out is not zero.
  The operand is a canonical object of at most \<^verbatim>\<open>ZZ_DIGITS_MAX\<close> digits and the output an
  initialised object, which may be the operand itself.
\<close>

theorem zz_quo_2exp_negative_floor:
  assumes "u < length s" and "v < length s"
    and "canonical (s ! u)" and "size_zz (s ! u) \<le> ZZ_DIGITS_MAX"
    and "alloc (s ! v) = length (digits (s ! v))"
    and "zz_val (s ! u) < 0"
  shows "\<exists>z. zz_quo_2exp s u k v = (ZZ_OK, s[v := z]) \<and> canonical z
     \<and> zz_val z * 2 ^ unat k \<le> zz_val (s ! u)
     \<and> zz_val (s ! u) < (zz_val z + 1) * 2 ^ unat k
     \<and> zz_val z = - int (zz_mag (s ! u) div 2 ^ unat k
                          + (if zz_mag (s ! u) mod 2 ^ unat k \<noteq> 0 then 1 else 0))"
proof -
  from zz_quo_2exp_spec [OF assms(1,2,3,5,4), of k] obtain z where
    z: "zz_quo_2exp s u k v = (ZZ_OK, s[v := z])" "canonical z"
       "zz_val z = zz_val (s ! u) div 2 ^ unat k"
    by blast
  have neg: "negative (s ! u)"
    using assms(6) by (simp add: zz_val_def split: if_splits)
  have P: "(0::int) < 2 ^ unat k" by simp
  have dm: "zz_val (s ! u) = zz_val (s ! u) div 2 ^ unat k * 2 ^ unat k
      + zz_val (s ! u) mod 2 ^ unat k"
    by (rule div_mult_mod_eq [symmetric])
  have m0: "0 \<le> zz_val (s ! u) mod 2 ^ unat k"
    using P by (rule pos_mod_sign)
  have m1: "zz_val (s ! u) mod 2 ^ unat k < 2 ^ unat k"
    using P by (rule pos_mod_bound)
  have lo: "zz_val z * 2 ^ unat k \<le> zz_val (s ! u)"
    unfolding z(3) using dm m0 by linarith
  have "(zz_val (s ! u) div 2 ^ unat k + 1) * 2 ^ unat k
      = zz_val (s ! u) div 2 ^ unat k * 2 ^ unat k + 2 ^ unat k"
    by (simp add: algebra_simps)
  then have hi: "zz_val (s ! u) < (zz_val z + 1) * 2 ^ unat k"
    unfolding z(3) using dm m1 by linarith
  have "zz_val z = signed_mag (negative (s ! u)) (zz_mag (s ! u) div 2 ^ unat k
      + (if negative (s ! u) \<and> zz_mag (s ! u) mod 2 ^ unat k \<noteq> 0 then 1 else 0))"
    unfolding z(3) zz_val_signed_mag [of "s ! u"] by (rule floor_shift)
  then have "zz_val z = - int (zz_mag (s ! u) div 2 ^ unat k
                          + (if zz_mag (s ! u) mod 2 ^ unat k \<noteq> 0 then 1 else 0))"
    using neg by (simp add: signed_mag_def)
  then show ?thesis
    using z(1,2) lo hi by (intro exI [of _ z]) simp
qed

text \<open>The scenario of the specification: \<open>-(2^128 - 2^64)\<close> shifted right by 64 bits.\<close>

theorem zz_quo_2exp_negative_floor_witness:
  "(0::nat) < length [\<lparr>negative = True, alloc = 2, size_zz = 2,
                        digits = [0, 18446744073709551615]\<rparr>, zz_init]
   \<and> canonical \<lparr>negative = True, alloc = 2, size_zz = 2, digits = [0, 18446744073709551615]\<rparr>
   \<and> (2::nat) \<le> ZZ_DIGITS_MAX
   \<and> alloc zz_init = length (digits zz_init)
   \<and> zz_val \<lparr>negative = True, alloc = 2, size_zz = 2, digits = [0, 18446744073709551615]\<rparr>
       = - 340282366920938463444927863358058659840
   \<and> (\<exists>z. zz_quo_2exp [\<lparr>negative = True, alloc = 2, size_zz = 2,
                           digits = [0, 18446744073709551615]\<rparr>, zz_init] 0 64 1
              = (ZZ_OK, [\<lparr>negative = True, alloc = 2, size_zz = 2,
                           digits = [0, 18446744073709551615]\<rparr>, z])
          \<and> canonical z \<and> zz_val z = - 18446744073709551615)"
proof -
  let ?u = "\<lparr>negative = True, alloc = 2, size_zz = 2, digits = [0, 18446744073709551615]\<rparr>"
  let ?S = "[?u, zz_init]"
  have c: "canonical ?u" "alloc zz_init = length (digits zz_init)"
    by (simp_all add: canonical_def zz_init_def)
  have v: "zz_val ?u = - 340282366920938463444927863358058659840"
    by (simp add: zz_val_def zz_mag_def)
  have m: "(2::nat) \<le> ZZ_DIGITS_MAX" by (simp add: ZZ_DIGITS_MAX_def)
  have "\<exists>z. zz_quo_2exp ?S 0 64 1 = (ZZ_OK, ?S[1 := z]) \<and> canonical z
     \<and> zz_val z * 2 ^ unat (64 :: 64 word) \<le> zz_val (?S ! 0)
     \<and> zz_val (?S ! 0) < (zz_val z + 1) * 2 ^ unat (64 :: 64 word)
     \<and> zz_val z = - int (zz_mag (?S ! 0) div 2 ^ unat (64 :: 64 word)
                          + (if zz_mag (?S ! 0) mod 2 ^ unat (64 :: 64 word) \<noteq> 0 then 1 else 0))"
    by (rule zz_quo_2exp_negative_floor)
       (simp_all add: canonical_def zz_init_def zz_val_def zz_mag_def ZZ_DIGITS_MAX_def)
  then obtain z where
    d: "zz_quo_2exp ?S 0 64 1 = (ZZ_OK, ?S[1 := z])" "canonical z"
       "zz_val z = - int (zz_mag (?S ! 0) div 2 ^ unat (64 :: 64 word)
                          + (if zz_mag (?S ! 0) mod 2 ^ unat (64 :: 64 word) \<noteq> 0 then 1 else 0))"
    by blast
  have e: "?S[1 := z] = [?u, z]" by simp
  have q: "zz_val z = - 18446744073709551615"
    using d(3) by (simp add: zz_mag_def)
  have l: "(0::nat) < length ?S" by simp
  from l c m v d(1,2) q show ?thesis
    unfolding e by (intro conjI exI [of _ z])
qed

section \<open>Shifting by at least the bit length\<close>



section \<open>Square root with remainder\<close>

text \<open>
  C7.  Let \<open>u\<close> be a canonical object and \<open>v\<close> and \<open>w\<close> two different initialised objects
  (each may be \<open>u\<close> itself).  For a negative \<open>u\<close>, \<^verbatim>\<open>zz_sqrtrem\<close> returns \<^verbatim>\<open>ZZ_VAL\<close> and changes
  nothing, with the remainder \<open>w\<close> given or \<^verbatim>\<open>NULL\<close>.  For \<open>u \<ge> 0\<close> it returns \<^verbatim>\<open>ZZ_OK\<close>, changes
  only \<open>v\<close> and \<open>w\<close>, and leaves in them, in canonical form, a root and a remainder with
  \<open>v * v + w = u\<close>, \<open>0 \<le> w \<le> 2 * v\<close> and \<open>v \<ge> 0\<close>; with \<^verbatim>\<open>NULL\<close> for the remainder it returns \<^verbatim>\<open>ZZ_OK\<close> and
  leaves the same root in \<open>v\<close>.  This holds whatever the kernel leaves in the words of the
  remainder area above the remainder (\<open>scratch\<close>).
\<close>

theorem zz_sqrtrem_root_and_remainder:
  assumes "u < length s" and "v < length s" and "w < length s" and "w \<noteq> v"
    and "canonical (s ! u)"
    and "alloc (s ! v) = length (digits (s ! v))"
    and "alloc (s ! w) = length (digits (s ! w))"
  shows "(zz_val (s ! u) < 0 \<longrightarrow>
            zz_sqrtrem s u v (Some w) scratch = (ZZ_VAL, s)
          \<and> zz_sqrtrem s u v None scratch = (ZZ_VAL, s))
       \<and> (0 \<le> zz_val (s ! u) \<longrightarrow>
            (\<exists>zv zw. zz_sqrtrem s u v (Some w) scratch = (ZZ_OK, s[v := zv, w := zw])
               \<and> zz_sqrtrem s u v None scratch = (ZZ_OK, s[v := zv])
               \<and> canonical zv \<and> canonical zw
               \<and> zz_val zv * zz_val zv + zz_val zw = zz_val (s ! u)
               \<and> 0 \<le> zz_val zw \<and> zz_val zw \<le> 2 * zz_val zv \<and> 0 \<le> zz_val zv))"
proof (intro conjI impI)
  assume "zz_val (s ! u) < 0"
  then have neg: "negative (s ! u)"
    using canonical_negative_val [OF assms(5)] by simp
  show "zz_sqrtrem s u v (Some w) scratch = (ZZ_VAL, s)"
    using zz_sqrtrem.simps [of s u v "Some w" scratch] neg by simp
  show "zz_sqrtrem s u v None scratch = (ZZ_VAL, s)"
    using zz_sqrtrem.simps [of s u v None scratch] neg by simp
next
  assume "0 \<le> zz_val (s ! u)"
  then have nn: "\<not> negative (s ! u)"
    using canonical_negative_val [OF assms(5)] by simp
  define N where "N = zz_mag (s ! u)"
  define S where "S = isqrt N"
  have U: "zz_val (s ! u) = int N" using nn by (simp add: zz_val_def N_def)
  from zz_sqrtrem_spec [OF assms(1-5) nn assms(6,7), of scratch] obtain zv zw where
    k: "zz_sqrtrem s u v (Some w) scratch = (ZZ_OK, s[v := zv, w := zw])"
       "zz_sqrtrem s u v None scratch = (ZZ_OK, s[v := zv])"
       "canonical zv" "canonical zw"
       "zz_val zv = int S" "zz_val zw = int (N - S * S)"
    unfolding N_def S_def by blast
  have le: "S * S \<le> N" using isqrt_correct [of N] by (simp add: S_def)
  have "int S * int S + int (N - S * S) = int N"
    using le by (simp add: of_nat_diff)
  moreover have "N - S * S \<le> 2 * S" unfolding S_def by (rule isqrt_rem)
  then have "int (N - S * S) \<le> 2 * int S" by linarith
  ultimately show "\<exists>zv zw. zz_sqrtrem s u v (Some w) scratch = (ZZ_OK, s[v := zv, w := zw])
               \<and> zz_sqrtrem s u v None scratch = (ZZ_OK, s[v := zv])
               \<and> canonical zv \<and> canonical zw
               \<and> zz_val zv * zz_val zv + zz_val zw = zz_val (s ! u)
               \<and> 0 \<le> zz_val zw \<and> zz_val zw \<le> 2 * zz_val zv \<and> 0 \<le> zz_val zv"
    using k(1-4) by (intro exI [of _ zv] exI [of _ zw]) (simp add: k(5,6) U)
qed

text \<open>The calls for \<open>10\<close> and for \<open>-4\<close>, with fresh outputs.\<close>

theorem zz_sqrtrem_root_and_remainder_witness:
  "canonical \<lparr>negative = False, alloc = 1, size_zz = 1, digits = [10]\<rparr>
   \<and> zz_val \<lparr>negative = False, alloc = 1, size_zz = 1, digits = [10]\<rparr> = 10
   \<and> canonical \<lparr>negative = True, alloc = 1, size_zz = 1, digits = [4]\<rparr>
   \<and> zz_val \<lparr>negative = True, alloc = 1, size_zz = 1, digits = [4]\<rparr> = - 4
   \<and> alloc zz_init = length (digits zz_init)
   \<and> (\<exists>zv zw. zz_sqrtrem [\<lparr>negative = False, alloc = 1, size_zz = 1, digits = [10]\<rparr>,
                           zz_init, zz_init] 0 1 (Some 2) []
                = (ZZ_OK, [\<lparr>negative = False, alloc = 1, size_zz = 1, digits = [10]\<rparr>, zv, zw])
        \<and> canonical zv \<and> canonical zw
        \<and> zz_val zv * zz_val zv + zz_val zw = 10
        \<and> 0 \<le> zz_val zw \<and> zz_val zw \<le> 2 * zz_val zv \<and> 0 \<le> zz_val zv)
   \<and> zz_sqrtrem [\<lparr>negative = True, alloc = 1, size_zz = 1, digits = [4]\<rparr>, zz_init, zz_init]
         0 1 (Some 2) []
       = (ZZ_VAL, [\<lparr>negative = True, alloc = 1, size_zz = 1, digits = [4]\<rparr>, zz_init, zz_init])"
proof -
  let ?p = "\<lparr>negative = False, alloc = 1, size_zz = 1, digits = [10]\<rparr>"
  let ?n = "\<lparr>negative = True, alloc = 1, size_zz = 1, digits = [4]\<rparr>"
  let ?P = "[?p, zz_init, zz_init]"
  let ?N = "[?n, zz_init, zz_init]"
  have c: "canonical ?p" "canonical ?n" "alloc zz_init = length (digits zz_init)"
    by (simp_all add: canonical_def zz_init_def)
  have v: "zz_val ?p = 10" "zz_val ?n = - 4"
    by (simp_all add: zz_val_def zz_mag_def)
  have hp: "(0::nat) < length ?P" "(1::nat) < length ?P" "(2::nat) < length ?P" "(2::nat) \<noteq> 1"
      "canonical (?P ! 0)" "alloc (?P ! 1) = length (digits (?P ! 1))"
      "alloc (?P ! 2) = length (digits (?P ! 2))"
    by (simp_all add: canonical_def zz_init_def)
  have hn: "(0::nat) < length ?N" "(1::nat) < length ?N" "(2::nat) < length ?N" "(2::nat) \<noteq> 1"
      "canonical (?N ! 0)" "alloc (?N ! 1) = length (digits (?N ! 1))"
      "alloc (?N ! 2) = length (digits (?N ! 2))"
    by (simp_all add: canonical_def zz_init_def)
  have vp: "0 \<le> zz_val (?P ! 0)" "zz_val (?P ! 0) = 10" by (simp_all add: zz_val_def zz_mag_def)
  have vn: "zz_val (?N ! 0) < 0" by (simp add: zz_val_def zz_mag_def)
  from zz_sqrtrem_root_and_remainder [OF hp, of "[]"] vp(1) obtain zv zw where
    d: "zz_sqrtrem ?P 0 1 (Some 2) [] = (ZZ_OK, ?P[1 := zv, 2 := zw])"
       "canonical zv" "canonical zw"
       "zz_val zv * zz_val zv + zz_val zw = zz_val (?P ! 0)"
       "0 \<le> zz_val zw" "zz_val zw \<le> 2 * zz_val zv" "0 \<le> zz_val zv"
    by blast
  have e: "?P[1 := zv, 2 := zw] = [?p, zv, zw]" by (simp add: numeral_2_eq_2)
  have q: "zz_val zv * zz_val zv + zz_val zw = 10" using d(4) by (simp only: vp(2))
  from zz_sqrtrem_root_and_remainder [OF hn, of "[]"] vn
  have n: "zz_sqrtrem ?N 0 1 (Some 2) [] = (ZZ_VAL, ?N)" by blast
  from c v d(1-3) q d(5-7) n show ?thesis
    unfolding e by (intro conjI exI [of _ zv] exI [of _ zw])
qed

section \<open>Canonical form of the outputs\<close>

text \<open>
  C8.  \<^verbatim>\<open>zz_set_double\<close> sets the sign from the double itself (\<^verbatim>\<open>SETNEG(u < 0, v)\<close>) and the digit
  count from the truncated value.  For a double between \<open>-1\<close> and \<open>0\<close>, here \<open>-0.5\<close> (the
  significand \<open>1\<close> and the exponent \<open>-1\<close>), the call returns \<^verbatim>\<open>ZZ_OK\<close> and leaves the digit
  count \<open>0\<close> with the sign set: a negative zero, which is not canonical.  The output object
  of the example holds \<open>7\<close> in a buffer of two words before the call, so that nothing is
  allocated.
\<close>

theorem zz_set_double_negative_zero:
  "canonical \<lparr>negative = False, alloc = 2, size_zz = 1, digits = [7, 0]\<rparr>
   \<and> zz_set_double (Finite True 1 (- 1))
         \<lparr>negative = False, alloc = 2, size_zz = 1, digits = [7, 0]\<rparr>
     = Some (ZZ_OK, \<lparr>negative = True, alloc = 2, size_zz = 0, digits = [7, 0]\<rparr>)
   \<and> \<not> canonical \<lparr>negative = True, alloc = 2, size_zz = 0, digits = [7, 0]\<rparr>"
  by (simp add: zz_set_double_def zz_resize_def DIGITS_PER_DOUBLE_def
      double_trunc_def write_limbs_def canonical_def Let_def)

end
